theory Spec2Isabelle
  imports Main
begin

section \<open>Strings of the page script\<close>

text \<open>
  A JavaScript string is a sequence of UTF-16 code units; \<open>length\<close> counts code units, as
  \<open>.length\<close> does. A code unit is modelled by its number.
\<close>

type_synonym jsstring = "nat list"

definition js :: "string \<Rightarrow> jsstring" where
  "js s = map of_char s"

text \<open>
  The characters that \<open>String.prototype.trim\<close>, \<open>parseInt\<close> and the regular expression
  classes \<open>\s\<close> / \<open>\S\<close> treat as white space: ECMAScript's WhiteSpace (TAB, VT, FF, ZWNBSP and
  the space separators) and LineTerminator (LF, CR, LS, PS).
\<close>

definition WhiteSpace :: "nat \<Rightarrow> bool" where
  "WhiteSpace c \<longleftrightarrow>
     c = 9 \<or> c = 11 \<or> c = 12 \<or> c = 32 \<or> c = 160 \<or> c = 5760 \<or> (8192 \<le> c \<and> c \<le> 8202) \<or>
     c = 8239 \<or> c = 8287 \<or> c = 12288 \<or> c = 65279"

definition LineTerminator :: "nat \<Rightarrow> bool" where
  "LineTerminator c \<longleftrightarrow> c = 10 \<or> c = 13 \<or> c = 8232 \<or> c = 8233"

definition is_ws :: "nat \<Rightarrow> bool" where
  "is_ws c \<longleftrightarrow> WhiteSpace c \<or> LineTerminator c"

definition trim :: "jsstring \<Rightarrow> jsstring" where
  "trim s = rev (dropWhile is_ws (rev (dropWhile is_ws s)))"

text \<open>\<open>Array.prototype.join\<close> on an array of strings.\<close>

fun join :: "jsstring \<Rightarrow> jsstring list \<Rightarrow> jsstring" where
  "join sep [] = []"
| "join sep [x] = x"
| "join sep (x # y # ys) = x @ sep @ join sep (y # ys)"

subsection \<open>parseInt with radix 10\<close>

text \<open>
  \<open>parseInt(v, 10)\<close>: the argument is converted to a string (\<open>null\<close> becomes the text
  "null"), leading white space is skipped, one sign is read, and the longest prefix of decimal
  digits is the value; no digit gives NaN, here \<open>None\<close>. The value is kept as an exact
  integer: the script only compares it with 0, 13 and 19, and rounding a long digit string
  to a double moves no value across these.
\<close>

definition is_digit :: "nat \<Rightarrow> bool" where
  "is_digit c \<longleftrightarrow> 48 \<le> c \<and> c \<le> 57"

definition digits_value :: "jsstring \<Rightarrow> nat" where
  "digits_value z = foldl (\<lambda>acc c. 10 * acc + (c - 48)) 0 z"

definition parseInt :: "jsstring option \<Rightarrow> int option" where
  "parseInt v =
     (let inputString = (case v of None \<Rightarrow> js ''null'' | Some s \<Rightarrow> s);
          S = dropWhile is_ws inputString;
          sign = (case S of c # _ \<Rightarrow> if c = 45 then - 1 else 1 | [] \<Rightarrow> (1::int));
          S' = (case S of c # cs \<Rightarrow> if c = 43 \<or> c = 45 then cs else S | [] \<Rightarrow> S);
          Z = takeWhile is_digit S'
      in if Z = [] then None else Some (sign * int (digits_value Z)))"

subsection \<open>The regular expression of the email rule\<close>

text \<open>
  \<open>/^\S+@\S+\.\S+$/.test(s)\<close>, as a backtracking matcher in continuation style: \<open>nonws_plus k\<close>
  is \<open>\S+\<close> followed by whatever \<open>k\<close> matches, \<open>lit c k\<close> is the literal \<open>c\<close> followed by
  \<open>k\<close>, and \<open>at_end\<close> is \<open>$\<close> (the expression has no flag, so \<open>$\<close> is the end of the input).
\<close>

fun nonws_plus :: "(jsstring \<Rightarrow> bool) \<Rightarrow> jsstring \<Rightarrow> bool" where
  "nonws_plus k [] = False"
| "nonws_plus k (c # cs) = (\<not> is_ws c \<and> (k cs \<or> nonws_plus k cs))"

definition lit :: "nat \<Rightarrow> (jsstring \<Rightarrow> bool) \<Rightarrow> jsstring \<Rightarrow> bool" where
  "lit c k s = (case s of [] \<Rightarrow> False | x # xs \<Rightarrow> x = c \<and> k xs)"

definition at_end :: "jsstring \<Rightarrow> bool" where
  "at_end s \<longleftrightarrow> s = []"

definition email_regex_test :: "jsstring \<Rightarrow> bool" where
  "email_regex_test s = nonws_plus (lit 64 (nonws_plus (lit 46 (nonws_plus at_end)))) s"

text \<open>
  The pattern in words: some non-white-space text, an at sign, some non-white-space text, a
  dot, some non-white-space text, and nothing else.
\<close>

definition nonwhitespace :: "jsstring \<Rightarrow> bool" where
  "nonwhitespace s \<longleftrightarrow> s \<noteq> [] \<and> (\<forall>c \<in> set s. \<not> is_ws c)"

definition email_pattern :: "jsstring \<Rightarrow> bool" where
  "email_pattern s \<longleftrightarrow>
     (\<exists>a b c. s = a @ [64] @ b @ [46] @ c \<and> nonwhitespace a \<and> nonwhitespace b \<and> nonwhitespace c)"

section \<open>Form validation\<close>

text \<open>
  The object passed to \<open>validateForm\<close>. A field is \<open>None\<close> when it is \<open>null\<close> or \<open>undefined\<close>
  (\<open>FormData.get\<close> gives \<open>null\<close> for a control the form does not have).
\<close>

record form_data =
  name :: "jsstring option"
  age :: "jsstring option"
  email :: "jsstring option"

definition name_error :: jsstring where
  "name_error = js ''Please enter a valid name.''"

definition age_error :: jsstring where
  "age_error = js ''Age must be between 13 and 19.''"

definition email_error :: jsstring where
  "email_error = js ''If provided, email must be valid.''"

text \<open>The three conditions of \<open>validateForm\<close>, each as the source writes it.\<close>

definition name_fails :: "form_data \<Rightarrow> bool" where
  "name_fails data =
     (case name data of None \<Rightarrow> True | Some s \<Rightarrow> s = [] \<or> length (trim s) < 2)"

definition age_fails :: "form_data \<Rightarrow> bool" where
  "age_fails data =
     (case parseInt (age data) of None \<Rightarrow> True | Some a \<Rightarrow> a = 0 \<or> a < 13 \<or> a > 19)"

definition email_fails :: "form_data \<Rightarrow> bool" where
  "email_fails data =
     (case email data of None \<Rightarrow> False | Some s \<Rightarrow> s \<noteq> [] \<and> \<not> email_regex_test s)"

definition validateForm :: "form_data \<Rightarrow> jsstring list" where
  "validateForm data =
     (let errors = [];
          errors = (if name_fails data then errors @ [name_error] else errors);
          errors = (if age_fails data then errors @ [age_error] else errors);
          errors = (if email_fails data then errors @ [email_error] else errors)
      in errors)"

section \<open>Timers and the event loop\<close>

text \<open>
  The script runs on one event loop. A pending \<open>setTimeout\<close> is an entry of the timer list:
  its id, the time at which it is due, and its callback (a value of a datatype, run by the
  program that owns the loop). \<open>clock\<close> is what \<open>now()\<close> and \<open>new Date()\<close> read, in
  milliseconds. Timers are idealised: a callback runs exactly when it is due, the earliest
  first, and among equal due times the one created first.
\<close>

type_synonym 'a timer = "nat \<times> int \<times> 'a"

record 'a loop =
  clock :: int
  next_id :: nat
  timers :: "'a timer list"

definition setTimeout :: "'a \<Rightarrow> int \<Rightarrow> ('a, 'z) loop_scheme \<Rightarrow> nat \<times> ('a, 'z) loop_scheme" where
  "setTimeout cb delay lp =
     (next_id lp,
      lp\<lparr>next_id := Suc (next_id lp),
         timers := timers lp @ [(next_id lp, clock lp + delay, cb)]\<rparr>)"

definition clearTimeout :: "nat \<Rightarrow> ('a, 'z) loop_scheme \<Rightarrow> ('a, 'z) loop_scheme" where
  "clearTimeout i lp = lp\<lparr>timers := filter (\<lambda>tm. fst tm \<noteq> i) (timers lp)\<rparr>"

fun earliest :: "'a timer list \<Rightarrow> 'a timer option" where
  "earliest [] = None"
| "earliest (x # xs) =
     (case earliest xs of
        None \<Rightarrow> Some x
      | Some y \<Rightarrow> if fst (snd y) < fst (snd x) then Some y else Some x)"

section \<open>throttle\<close>

text \<open>
  The closure variables \<open>last\<close> and \<open>timer\<close> of one \<open>throttle(fn, wait)\<close>; \<open>timer\<close> is
  \<open>None\<close> for \<open>null\<close>.
\<close>

record throttle =
  last_t :: int
  timer_t :: "nat option"

definition throttle_new :: throttle where
  "throttle_new = \<lparr>last_t = 0, timer_t = None\<rparr>"

text \<open>
  One call of the function that \<open>throttle\<close> returns, with arguments \<open>args\<close>. The result says
  whether \<open>fn.apply(this, args)\<close> is to run now (the caller runs it on the returned state);
  \<open>trailing args\<close> is the callback handed to \<open>setTimeout\<close>, which holds the arguments of
  this call.
\<close>

definition throttle_call ::
  "('x \<Rightarrow> 'a) \<Rightarrow> int \<Rightarrow> 'x \<Rightarrow> throttle \<Rightarrow> ('a, 'z) loop_scheme
     \<Rightarrow> bool \<times> throttle \<times> ('a, 'z) loop_scheme" where
  "throttle_call trailing wait args th lp =
     (let t = clock lp;
          remaining = wait - (t - last_t th)
      in if remaining \<le> 0 then
           (True, \<lparr>last_t = t, timer_t = None\<rparr>,
            (case timer_t th of Some i \<Rightarrow> clearTimeout i lp | None \<Rightarrow> lp))
         else if timer_t th = None then
           (let (i, lp') = setTimeout (trailing args) remaining lp
            in (False, th\<lparr>timer_t := Some i\<rparr>, lp'))
         else (False, th, lp))"

text \<open>The first two statements of the timer callback; \<open>fn.apply(this, args)\<close> follows.\<close>

definition throttle_trailing :: "throttle \<Rightarrow> ('a, 'z) loop_scheme \<Rightarrow> throttle" where
  "throttle_trailing th lp = th\<lparr>last_t := clock lp, timer_t := None\<rparr>"

subsection \<open>A throttled function that records its executions\<close>

text \<open>
  To observe \<open>throttle\<close> on its own, \<open>fn\<close> appends the time and the arguments of each of its
  executions to \<open>calls\<close>. The callback of a timer is the argument list it holds.
\<close>

record 'x probe = "'x loop" +
  thr :: throttle
  calls :: "(int \<times> 'x) list"

definition probe_fn :: "'x \<Rightarrow> 'x probe \<Rightarrow> 'x probe" where
  "probe_fn args pb = pb\<lparr>calls := calls pb @ [(clock pb, args)]\<rparr>"

definition probe_call :: "int \<Rightarrow> 'x \<Rightarrow> 'x probe \<Rightarrow> 'x probe" where
  "probe_call wait args pb =
     (let (run_now, th, pb') = throttle_call (\<lambda>a. a) wait args (thr pb) pb;
          pb'' = pb'\<lparr>thr := th\<rparr>
      in if run_now then probe_fn args pb'' else pb'')"

definition probe_fire :: "'x \<Rightarrow> 'x probe \<Rightarrow> 'x probe" where
  "probe_fire args pb = probe_fn args (pb\<lparr>thr := throttle_trailing (thr pb) pb\<rparr>)"

text \<open>Time passes until \<open>t\<close>: the timers due by then run in order.\<close>

function probe_advance :: "int \<Rightarrow> 'x probe \<Rightarrow> 'x probe" where
  "probe_advance t pb =
     (case earliest (timers pb) of
        None \<Rightarrow> pb\<lparr>clock := max (clock pb) t\<rparr>
      | Some (i, due, args) \<Rightarrow>
          if due \<le> t
          then probe_advance t (probe_fire args ((clearTimeout i pb)\<lparr>clock := max (clock pb) due\<rparr>))
          else pb\<lparr>clock := max (clock pb) t\<rparr>)"
  by pat_completeness auto

lemma earliest_mem: "earliest xs = Some x \<Longrightarrow> x \<in> set xs"
  by (induction xs arbitrary: x) (auto split: option.splits if_splits)

lemma length_filter_id:
  "(i, d, cb) \<in> set xs \<Longrightarrow> length (filter (\<lambda>tm. fst tm \<noteq> i) xs) < length xs"
  by (induction xs) (auto simp: less_Suc_eq_le)

termination probe_advance
proof (relation "measure (\<lambda>(t, pb). length (timers pb))")
  show "wf (measure (\<lambda>(t, pb::'a probe). length (timers pb)))" by simp
next
  fix t :: int and pb :: "'a probe" and x2 :: "'a timer" and i y due args
  assume e: "earliest (timers pb) = Some x2" and x: "(i, y) = x2" "(due, args) = y"
  from e x have "(i, due, args) \<in> set (timers pb)" using earliest_mem by fastforce
  then have "length (filter (\<lambda>tm. fst tm \<noteq> i) (timers pb)) < length (timers pb)"
    by (rule length_filter_id)
  then show "((t, probe_fire args ((clearTimeout i pb)\<lparr>clock := max (clock pb) due\<rparr>)), (t, pb))
       \<in> measure (\<lambda>(t, pb). length (timers pb))"
    by (simp add: probe_fire_def probe_fn_def clearTimeout_def)
qed

declare probe_advance.simps [simp del]

text \<open>
  A run of calls: each call comes some milliseconds after the one before (the timers due in
  between run first) and carries its arguments.
\<close>

fun probe_run :: "int \<Rightarrow> (nat \<times> 'x) list \<Rightarrow> 'x probe \<Rightarrow> 'x probe" where
  "probe_run wait [] pb = pb"
| "probe_run wait ((d, args) # cs) pb =
     probe_run wait cs (probe_call wait args (probe_advance (clock pb + int d) pb))"

definition probe_init :: "int \<Rightarrow> 'x probe" where
  "probe_init t0 = \<lparr>clock = t0, next_id = 1, timers = [], thr = throttle_new, calls = []\<rparr>"

section \<open>The signup modal\<close>

text \<open>
  What \<open>localStorage\<close> holds under a key. \<open>JoinRecordJSON n t\<close> stands for the string
  \<open>JSON.stringify({ name: n, joinedAt: new Date(t).toISOString() })\<close>, which the script builds
  with library functions and never reads back; it is not the empty string. \<open>Text s\<close> is any
  other string.
\<close>

datatype stored = Text jsstring | JoinRecordJSON "jsstring option" int

definition storageKey :: jsstring where
  "storageKey = js ''funngro_teen_joined''"

datatype timer_action =
    ShowTimer
  | ScrollTrailing
  | Accept form_data
  | CloseAfterJoin
  | InitScroll

text \<open>
  The page as far as \<open>setupCTAModal\<close> reads and writes it: the window's scroll position and
  height in whole pixels, \<open>localStorage\<close>, whether the document has an element \<open>#cta-modal\<close>,
  whether the listeners of \<open>setupCTAModal\<close> are installed, its closure variables \<open>shown\<close> and
  \<open>timed\<close>, the closure of its throttled scroll listener, the \<open>open\<close> class of the modal,
  \<open>document.body.style.overflow\<close>, and the text and \<open>error\<close> class of the feedback line.
  \<open>opened\<close> counts the calls of \<open>openModal\<close>; it is not a variable of the script. The
  keyboard focus, which \<open>openModal\<close> moves into the panel, is left out.
\<close>

record page = "timer_action loop" +
  scrollY :: int
  innerHeight :: int
  localStorage :: "jsstring \<rightharpoonup> stored"
  has_cta_modal :: bool
  listening :: bool
  shown :: bool
  timed :: nat
  scroll_thr :: throttle
  modal_open :: bool
  body_overflow :: jsstring
  feedback_text :: jsstring
  feedback_error :: bool
  opened :: nat

text \<open>The truth value of \<open>localStorage.getItem(storageKey)\<close>: \<open>null\<close> and the empty string are false.\<close>

fun truthy :: "stored option \<Rightarrow> bool" where
  "truthy None = False"
| "truthy (Some (Text s)) = (s \<noteq> [])"
| "truthy (Some (JoinRecordJSON n t)) = True"

definition joined :: "page \<Rightarrow> bool" where
  "joined st = truthy (localStorage st storageKey)"

definition openModal :: "page \<Rightarrow> page" where
  "openModal st = st\<lparr>modal_open := True, body_overflow := js ''hidden'', opened := opened st + 1\<rparr>"

definition closeModal :: "page \<Rightarrow> page" where
  "closeModal st = st\<lparr>modal_open := False, body_overflow := []\<rparr>"

definition showAfter :: "page \<Rightarrow> page" where
  "showAfter st = (if shown st \<or> joined st then st else openModal (st\<lparr>shown := True\<rparr>))"

text \<open>
  The function that \<open>setupCTAModal\<close> throttles. Its test is
  \<open>window.scrollY > window.innerHeight * 0.45\<close>; the position and the height are whole
  pixels here, and for whole numbers of that size the comparison in doubles and the exact
  comparison \<open>100 * scrollY > 45 * innerHeight\<close> agree.
\<close>

definition scroll_check :: "page \<Rightarrow> page" where
  "scroll_check st =
     (if 100 * scrollY st > 45 * innerHeight st
      then showAfter (clearTimeout (timed st) st)
      else st)"

definition scroll_listener :: "page \<Rightarrow> page" where
  "scroll_listener st =
     (let (run_now, th, st') = throttle_call (\<lambda>_. ScrollTrailing) 250 () (scroll_thr st) st;
          st'' = st'\<lparr>scroll_thr := th\<rparr>
      in if run_now then scroll_check st'' else st'')"

definition dispatch_scroll :: "page \<Rightarrow> page" where
  "dispatch_scroll st = (if listening st then scroll_listener st else st)"

definition setupCTAModal :: "page \<Rightarrow> page" where
  "setupCTAModal st =
     (if joined st then st
      else if has_cta_modal st then st
      else
        (let st1 = st\<lparr>has_cta_modal := True, listening := True, shown := False,
                      modal_open := False, feedback_text := [], feedback_error := False\<rparr>;
             (i, st2) = setTimeout ShowTimer 6000 st1
         in st2\<lparr>timed := i, scroll_thr := throttle_new\<rparr>))"

text \<open>\<open>init\<close>, as far as it concerns the modal: the setup, and the scroll event sent after 200 ms.\<close>

definition init :: "page \<Rightarrow> page" where
  "init st = snd (setTimeout InitScroll 200 (setupCTAModal st))"

subsection \<open>The submit listener\<close>

definition payload_of :: "form_data \<Rightarrow> form_data" where
  "payload_of fd = \<lparr>name = map_option trim (name fd), age = age fd, email = map_option trim (email fd)\<rparr>"

definition submitting_text :: jsstring where
  "submitting_text = js ''Submitting...''"

definition welcome_text :: jsstring where
  "welcome_text = js ''Welcome aboard! Check your dashboard for gigs.''"

definition submit :: "form_data \<Rightarrow> page \<Rightarrow> page" where
  "submit fd st =
     (let payload = payload_of fd;
          errors = validateForm payload
      in if errors \<noteq> [] then st\<lparr>feedback_text := join (js '' '') errors, feedback_error := True\<rparr>
         else snd (setTimeout (Accept payload) 900
                     (st\<lparr>feedback_text := submitting_text, feedback_error := False\<rparr>)))"

subsection \<open>Timer callbacks\<close>

text \<open>
  The callbacks of the five timers: the 6000 ms timer of the modal, the trailing call of the
  throttled scroll listener, the acceptance 900 ms after a valid submission (it holds the
  payload), the closing of the modal 1400 ms after that, and the scroll event that \<open>init\<close>
  sends. \<open>localStorage.setItem\<close> is taken to succeed.
\<close>

fun fire :: "timer_action \<Rightarrow> page \<Rightarrow> page" where
  "fire ShowTimer st = showAfter st"
| "fire ScrollTrailing st = scroll_check (st\<lparr>scroll_thr := throttle_trailing (scroll_thr st) st\<rparr>)"
| "fire (Accept payload) st =
     snd (setTimeout CloseAfterJoin 1400
            (st\<lparr>localStorage := (localStorage st)(storageKey \<mapsto> JoinRecordJSON (name payload) (clock st)),
                feedback_text := welcome_text\<rparr>))"
| "fire CloseAfterJoin st = st\<lparr>modal_open := False, body_overflow := []\<rparr>"
| "fire InitScroll st = dispatch_scroll st"

text \<open>Time passes until \<open>t\<close>: the timers due by then run in order.\<close>

function advance :: "int \<Rightarrow> page \<Rightarrow> page" where
  "advance t st =
     (case earliest (timers st) of
        None \<Rightarrow> st\<lparr>clock := max (clock st) t\<rparr>
      | Some (i, due, cb) \<Rightarrow>
          if due \<le> t
          then advance t (fire cb ((clearTimeout i st)\<lparr>clock := max (clock st) due\<rparr>))
          else st\<lparr>clock := max (clock st) t\<rparr>)"
  by pat_completeness auto

text \<open>
  \<open>advance\<close> ends because each callback leaves the timer list lighter than it found it: the
  callbacks that may set a timer count double.
\<close>

fun cb_weight :: "timer_action \<Rightarrow> nat" where
  "cb_weight (Accept p) = 2"
| "cb_weight InitScroll = 2"
| "cb_weight cb = 1"

definition queue_weight :: "timer_action timer list \<Rightarrow> nat" where
  "queue_weight ts = sum_list (map (\<lambda>(i, due, cb). cb_weight cb) ts)"

lemma queue_weight_Nil [simp]: "queue_weight [] = 0"
  by (simp add: queue_weight_def)

lemma queue_weight_Cons [simp]: "queue_weight ((i, d, cb) # ts) = cb_weight cb + queue_weight ts"
  by (simp add: queue_weight_def)

lemma queue_weight_append [simp]: "queue_weight (ts @ us) = queue_weight ts + queue_weight us"
  by (simp add: queue_weight_def)

lemma queue_weight_filter: "queue_weight (filter P ts) \<le> queue_weight ts"
  by (induction ts) auto

lemma queue_weight_remove:
  "(i, d, cb) \<in> set ts \<Longrightarrow>
   queue_weight (filter (\<lambda>tm. fst tm \<noteq> i) ts) + cb_weight cb \<le> queue_weight ts"
proof (induction ts)
  case Nil
  then show ?case by simp
next
  case (Cons x ts)
  obtain j e c where x: "x = (j, e, c)" by (cases x)
  show ?case
  proof (cases "(i, d, cb) \<in> set ts")
    case True
    with Cons.IH show ?thesis by (simp add: x)
  next
    case False
    with Cons.prems have "x = (i, d, cb)" by simp
    with queue_weight_filter [of "\<lambda>tm. fst tm \<noteq> i" ts] show ?thesis
      by simp
  qed
qed

lemma showAfter_timers: "timers (showAfter st) = timers st"
  by (simp add: showAfter_def openModal_def)

lemma scroll_check_weight: "queue_weight (timers (scroll_check st)) \<le> queue_weight (timers st)"
  by (simp add: scroll_check_def showAfter_timers clearTimeout_def queue_weight_filter)

lemma throttle_call_weight:
  "queue_weight (timers (snd (snd (throttle_call (\<lambda>_. ScrollTrailing) w a th (st::page)))))
     \<le> queue_weight (timers st) + 1"
  by (simp add: throttle_call_def Let_def setTimeout_def clearTimeout_def queue_weight_filter
      le_SucI split: option.splits)

lemma scroll_listener_weight:
  "queue_weight (timers (scroll_listener st)) \<le> queue_weight (timers st) + 1"
proof -
  obtain r th st' where c: "throttle_call (\<lambda>_. ScrollTrailing) 250 () (scroll_thr st) st = (r, th, st')"
    by (metis prod_cases3)
  with throttle_call_weight [of 250 "()" "scroll_thr st" st]
  have w: "queue_weight (timers st') \<le> queue_weight (timers st) + 1" by simp
  have "queue_weight (timers (scroll_check (st'\<lparr>scroll_thr := th\<rparr>))) \<le> queue_weight (timers st')"
    using scroll_check_weight [of "st'\<lparr>scroll_thr := th\<rparr>"] by simp
  with w c show ?thesis by (simp add: scroll_listener_def Let_def)
qed

lemma fire_weight: "queue_weight (timers (fire cb st)) + 1 \<le> queue_weight (timers st) + cb_weight cb"
proof (cases cb)
  case ShowTimer
  then show ?thesis by (simp add: showAfter_timers)
next
  case ScrollTrailing
  then show ?thesis using scroll_check_weight [of "st\<lparr>scroll_thr := throttle_trailing (scroll_thr st) st\<rparr>"] by simp
next
  case (Accept p)
  then show ?thesis by (simp add: setTimeout_def)
next
  case CloseAfterJoin
  then show ?thesis by simp
next
  case InitScroll
  then show ?thesis using scroll_listener_weight [of st] by (simp add: dispatch_scroll_def)
qed

termination advance
proof (relation "measure (\<lambda>(t, st). queue_weight (timers st))")
  show "wf (measure (\<lambda>(t, st::page). queue_weight (timers st)))" by simp
next
  fix t :: int and st :: page and x2 :: "timer_action timer" and i y due cb
  assume e: "earliest (timers st) = Some x2" and x: "(i, y) = x2" "(due, cb) = y"
  from e x have "(i, due, cb) \<in> set (timers st)" using earliest_mem by fastforce
  then have "queue_weight (filter (\<lambda>tm. fst tm \<noteq> i) (timers st)) + cb_weight cb
      \<le> queue_weight (timers st)"
    by (rule queue_weight_remove)
  moreover have "queue_weight (timers (fire cb ((clearTimeout i st)\<lparr>clock := max (clock st) due\<rparr>))) + 1
      \<le> queue_weight (timers ((clearTimeout i st)\<lparr>clock := max (clock st) due\<rparr>)) + cb_weight cb"
    by (rule fire_weight)
  ultimately show "((t, fire cb ((clearTimeout i st)\<lparr>clock := max (clock st) due\<rparr>)), (t, st))
       \<in> measure (\<lambda>(t, st). queue_weight (timers st))"
    by (simp add: clearTimeout_def)
qed

declare advance.simps [simp del]

subsection \<open>Events of the page\<close>

text \<open>
  What can happen to the page after \<open>init\<close>: time passes; the user scrolls to a position
  (the window then sends a scroll event) or resizes the window; a click on the close
  button, the backdrop or "Maybe later"; the Escape key; a submit event of the form with the
  values of its fields; and a write to the storage entry from outside this page (another tab
  of the same site), \<open>None\<close> being its removal.
\<close>

datatype event =
    Wait nat
  | Scroll int
  | Resize int
  | ClickClose
  | KeyEscape
  | Submit form_data
  | Storage "stored option"

fun step :: "event \<Rightarrow> page \<Rightarrow> page" where
  "step (Wait d) st = advance (clock st + int d) st"
| "step (Scroll y) st = dispatch_scroll (st\<lparr>scrollY := y\<rparr>)"
| "step (Resize h) st = st\<lparr>innerHeight := h\<rparr>"
| "step ClickClose st = (if listening st then closeModal st else st)"
| "step KeyEscape st = (if listening st \<and> modal_open st then closeModal st else st)"
| "step (Submit fd) st = (if listening st then submit fd st else st)"
| "step (Storage v) st = st\<lparr>localStorage := (localStorage st)(storageKey := v)\<rparr>"

definition run :: "event list \<Rightarrow> page \<Rightarrow> page" where
  "run evs st = foldl (\<lambda>s e. step e s) st evs"

text \<open>
  The page when the script starts, at time \<open>t0\<close>, scrolled to \<open>y\<close> in a window of height \<open>h\<close>,
  with storage \<open>sto\<close>; \<open>el\<close> says whether the document already has an element \<open>#cta-modal\<close>.
\<close>

definition fresh_page :: "int \<Rightarrow> int \<Rightarrow> int \<Rightarrow> (jsstring \<rightharpoonup> stored) \<Rightarrow> bool \<Rightarrow> page" where
  "fresh_page t0 y h sto el =
     \<lparr>clock = t0, next_id = 1, timers = [], scrollY = y, innerHeight = h,
      localStorage = sto, has_cta_modal = el, listening = False, shown = False, timed = 0,
      scroll_thr = throttle_new, modal_open = False, body_overflow = [], feedback_text = [],
      feedback_error = False, opened = 0\<rparr>"

section \<open>The testimonial rotator\<close>

record testimonial =
  text_t :: jsstring
  author :: jsstring

definition testimonials :: "testimonial list" where
  "testimonials =
     [\<lparr>text_t = js ''I earned my first '' @ [8377] @ js ''2000 within a week. Best platform for teens!'',
       author = [8212] @ js '' Aarav, 16''\<rparr>,
      \<lparr>text_t = js ''Work is simple & flexible. Perfect for students.'',
       author = [8212] @ js '' Sana, 17''\<rparr>,
      \<lparr>text_t = js ''Funngro helped me improve my writing & earn consistently.'',
       author = [8212] @ js '' Rohan, 15''\<rparr>]"

text \<open>
  The closure variable \<open>idx\<close> and the text of the two elements; \<open>has_authorEl\<close> says whether
  the author element was found.
\<close>

record rotator =
  idx :: nat
  review_textContent :: jsstring
  has_authorEl :: bool
  author_textContent :: jsstring

definition set_t :: "nat \<Rightarrow> rotator \<Rightarrow> rotator" where
  "set_t i st =
     (let r = testimonials ! (i mod length testimonials)
      in st\<lparr>review_textContent := text_t r,
            author_textContent := (if has_authorEl st then author r else author_textContent st),
            idx := (i + 1) mod length testimonials\<rparr>)"

text \<open>The callback of the interval: \<open>set(idx)\<close>.\<close>

definition rotate :: "rotator \<Rightarrow> rotator" where
  "rotate st = set_t (idx st) st"

section \<open>Scroll reveal\<close>

text \<open>
  Elements are numbered. \<open>active\<close> is the set of elements whose class list has \<open>active\<close>,
  \<open>observed\<close> the set of targets of the IntersectionObserver, \<open>threshold_percent\<close> the
  threshold it was created with.
\<close>

record reveal =
  active :: "nat set"
  observed :: "nat set"
  threshold_percent :: nat

definition setupScrollReveal :: "nat list \<Rightarrow> bool \<Rightarrow> reveal \<Rightarrow> reveal" where
  "setupScrollReveal revealNodes prefersReducedMotion st =
     (if revealNodes = [] \<or> prefersReducedMotion
      then st\<lparr>active := active st \<union> set revealNodes\<rparr>
      else st\<lparr>observed := set revealNodes, threshold_percent := 12\<rparr>)"

text \<open>The observer's callback on a list of entries, each a target and its \<open>isIntersecting\<close>.\<close>

definition on_entry :: "reveal \<Rightarrow> nat \<times> bool \<Rightarrow> reveal" where
  "on_entry st entry =
     (if snd entry
      then st\<lparr>active := insert (fst entry) (active st), observed := observed st - {fst entry}\<rparr>
      else st)"

definition observer_callback :: "(nat \<times> bool) list \<Rightarrow> reveal \<Rightarrow> reveal" where
  "observer_callback entries st = foldl on_entry st entries"

section \<open>The claims' vocabulary\<close>

text \<open>A name that is missing, or shorter than two characters once trimmed.\<close>

definition name_missing_or_short :: "jsstring option \<Rightarrow> bool" where
  "name_missing_or_short n = (case n of None \<Rightarrow> True | Some s \<Rightarrow> length (trim s) < 2)"

text \<open>An age that, read as an integer, is not one of 13, ..., 19; an age that is no number is one.\<close>

definition age_outside_13_19 :: "jsstring option \<Rightarrow> bool" where
  "age_outside_13_19 a = (case parseInt a of None \<Rightarrow> True | Some n \<Rightarrow> \<not> (13 \<le> n \<and> n \<le> 19))"

text \<open>
  A rejected submission: all the submit listener does is to show the messages, joined by
  single spaces, as an error. No timer is set and storage is left alone.
\<close>

definition rejected :: "form_data \<Rightarrow> page \<Rightarrow> bool" where
  "rejected fd st \<longleftrightarrow>
     submit fd st =
       st\<lparr>feedback_text := join (js '' '') (validateForm (payload_of fd)), feedback_error := True\<rparr>"

text \<open>
  An email field that, once trimmed, is not empty and is not of the form non-white-space, at
  sign, non-white-space, dot, non-white-space.
\<close>

definition email_malformed :: "jsstring option \<Rightarrow> bool" where
  "email_malformed e =
     (case e of None \<Rightarrow> False | Some s \<Rightarrow> trim s \<noteq> [] \<and> \<not> email_pattern (trim s))"

text \<open>
  The messages of the rules that the fields of a submitted form fail, in the order of the
  rules.
\<close>

definition failing_messages :: "form_data \<Rightarrow> jsstring list" where
  "failing_messages fd =
     map snd (filter fst
       [(name_missing_or_short (name fd), name_error),
        (age_outside_13_19 (age fd), age_error),
        (email_malformed (email fd), email_error)])"

text \<open>A sequence of callbacks of the observer, each with its list of entries.\<close>

definition callbacks :: "(nat \<times> bool) list list \<Rightarrow> reveal \<Rightarrow> reveal" where
  "callbacks batches st = foldl (\<lambda>s entries. observer_callback entries s) st batches"

text \<open>Times of execution that are at least \<open>w\<close> apart from one to the next.\<close>

fun spaced :: "int \<Rightarrow> int list \<Rightarrow> bool" where
  "spaced w [] = True"
| "spaced w [t] = True"
| "spaced w (t # u # ts) = (t + w \<le> u \<and> spaced w (u # ts))"

text \<open>The time from the first call of a run of calls to its last.\<close>

definition total_delay :: "(nat \<times> 'x) list \<Rightarrow> nat" where
  "total_delay cs = sum_list (map fst cs)"

text \<open>
  What holds of a throttled function between calls: its executions are spaced, \<open>last\<close> is
  the time of the latest one, and \<open>timer\<close> is set exactly when its one timer is pending, due
  \<open>wait\<close> after \<open>last\<close>.
\<close>

definition probe_inv :: "int \<Rightarrow> 'x probe \<Rightarrow> bool" where
  "probe_inv w pb \<longleftrightarrow>
     spaced w (map fst (calls pb)) \<and>
     (calls pb = [] \<or> last (map fst (calls pb)) = last_t (thr pb)) \<and>
     (case timer_t (thr pb) of
        None \<Rightarrow> timers pb = []
      | Some j \<Rightarrow> (\<exists>args. timers pb = [(j, last_t (thr pb) + w, args)]))"

subsection \<open>States of the modal between events\<close>

text \<open>\<open>openModal\<close> has run once if the modal was shown, and not at all otherwise.\<close>

definition once :: "page \<Rightarrow> bool" where
  "once s \<longleftrightarrow> opened s = (if shown s then 1 else 0)"

text \<open>An event that leaves a join record in storage where there is one: anything but the
  removal of the entry or its replacement by the empty string from outside.\<close>

definition keeps_record :: "event \<Rightarrow> bool" where
  "keeps_record e = (case e of Storage None \<Rightarrow> False | Storage (Some (Text s)) \<Rightarrow> s \<noteq> [] | _ \<Rightarrow> True)"

text \<open>With a join record in storage, \<open>openModal\<close> has run \<open>n\<close> times and the modal is open only if
  \<open>m\<close> holds.\<close>

definition closed_since :: "nat \<Rightarrow> bool \<Rightarrow> page \<Rightarrow> bool" where
  "closed_since n m s \<longleftrightarrow> joined s \<and> opened s = n \<and> (modal_open s \<longrightarrow> m)"

text \<open>\<open>setupCTAModal\<close> returned early: no listener is installed, the only timers are those of
  \<open>init\<close>, and the modal has not been opened.\<close>

definition inert :: "bool \<Rightarrow> page \<Rightarrow> bool" where
  "inert el s \<longleftrightarrow>
     \<not> listening s \<and> (\<forall>tm \<in> set (timers s). snd (snd tm) = InitScroll) \<and>
     opened s = 0 \<and> \<not> modal_open s \<and> has_cta_modal s = el"

text \<open>Timer ids are handed out in increasing order; the timer list is in the order of creation.\<close>

definition ids_sorted :: "nat \<Rightarrow> 'a timer list \<Rightarrow> bool" where
  "ids_sorted n ts \<longleftrightarrow> (\<forall>tm \<in> set ts. fst tm < n) \<and> sorted_wrt (<) (map fst ts)"

text \<open>The ids held in \<open>timed\<close> and in the throttle's \<open>timer\<close> have been handed out, and they differ.\<close>

definition ids_ok :: "page \<Rightarrow> bool" where
  "ids_ok s \<longleftrightarrow>
     timed s < next_id s \<and> ids_sorted (next_id s) (timers s) \<and>
     (\<forall>j. timer_t (scroll_thr s) = Some j \<longrightarrow> j < next_id s \<and> j \<noteq> timed s)"

text \<open>The throttle of the scroll listener: \<open>last\<close> is not in the future, and when \<open>timer\<close> is set
  its timer is pending and due at most 250 ms after \<open>last\<close>.\<close>

definition throttle_ok :: "page \<Rightarrow> bool" where
  "throttle_ok s \<longleftrightarrow>
     last_t (scroll_thr s) \<le> clock s \<and>
     (\<forall>j. timer_t (scroll_thr s) = Some j \<longrightarrow>
        (\<exists>d. (j, d, ScrollTrailing) \<in> set (timers s) \<and> d \<le> last_t (scroll_thr s) + 250))"

text \<open>The callbacks that write the join record.\<close>

fun is_Accept :: "timer_action \<Rightarrow> bool" where
  "is_Accept (Accept p) = True"
| "is_Accept cb = False"

text \<open>A pending acceptance is due at most 900 ms from now.\<close>

definition accepts_ok :: "page \<Rightarrow> bool" where
  "accepts_ok s \<longleftrightarrow> (\<forall>tm \<in> set (timers s). is_Accept (snd (snd tm)) \<longrightarrow> fst (snd tm) \<le> clock s + 900)"

text \<open>Between events no timer is overdue.\<close>

definition settled :: "page \<Rightarrow> bool" where
  "settled s \<longleftrightarrow> (\<forall>tm \<in> set (timers s). clock s < fst (snd tm))"

text \<open>
  Events that put no join record into storage: a submission only if it fails validation, a
  write from outside only if it removes the entry or leaves the empty string.
\<close>

definition writes_no_record :: "event \<Rightarrow> bool" where
  "writes_no_record e =
     (case e of
        Submit fd \<Rightarrow> validateForm (payload_of fd) \<noteq> []
      | Storage v \<Rightarrow> \<not> truthy v
      | _ \<Rightarrow> True)"

text \<open>The modal is set up, storage holds no join record, no acceptance is pending, and the modal
  was shown or its 6000 ms timer (set at \<open>t0\<close>) is still pending.\<close>

definition awaiting :: "int \<Rightarrow> page \<Rightarrow> bool" where
  "awaiting t0 s \<longleftrightarrow>
     listening s \<and> \<not> joined s \<and> (\<forall>tm \<in> set (timers s). \<not> is_Accept (snd (snd tm))) \<and>
     (shown s \<or> (timed s, t0 + 6000, ShowTimer) \<in> set (timers s))"

text \<open>The scroll position exceeds 45 percent of the window height.\<close>

definition past :: "page \<Rightarrow> bool" where
  "past s \<longleftrightarrow> 100 * scrollY s > 45 * innerHeight s"

text \<open>The scroll position is at or below 45 percent of the window height.\<close>

definition at_or_below :: "page \<Rightarrow> bool" where
  "at_or_below s \<longleftrightarrow> 100 * scrollY s \<le> 45 * innerHeight s"

text \<open>A property of the page holds after each event of a run.\<close>

fun along :: "(page \<Rightarrow> bool) \<Rightarrow> event list \<Rightarrow> page \<Rightarrow> bool" where
  "along P [] s = True"
| "along P (e # es) s = (P (step e s) \<and> along P es (step e s))"

text \<open>The modal has not been shown, the position is at or below 45 percent, and no show timer is
  due before \<open>t0 + 6000\<close>.\<close>

definition not_yet :: "int \<Rightarrow> page \<Rightarrow> bool" where
  "not_yet t0 s \<longleftrightarrow>
     (\<forall>tm \<in> set (timers s). snd (snd tm) = ShowTimer \<longrightarrow> t0 + 6000 \<le> fst (snd tm)) \<and>
     at_or_below s \<and> \<not> shown s \<and> opened s = 0"

text \<open>The position is past 45 percent and the modal was shown or a trailing scroll check is due by \<open>t\<close>.\<close>

definition triggered :: "int \<Rightarrow> int \<Rightarrow> page \<Rightarrow> bool" where
  "triggered t0 t s \<longleftrightarrow>
     awaiting t0 s \<and> ids_ok s \<and> past s \<and>
     (shown s \<or> (\<exists>j d. (j, d, ScrollTrailing) \<in> set (timers s) \<and> d \<le> t))"

text \<open>The acceptance due at \<open>D\<close> has run: the record is stored, the confirmation is shown, no
  other acceptance is pending, and the timer that closes the modal is pending.\<close>

definition done_join :: "int \<Rightarrow> form_data \<Rightarrow> page \<Rightarrow> bool" where
  "done_join D p s \<longleftrightarrow>
     localStorage s storageKey = Some (JoinRecordJSON (name p) D) \<and>
     feedback_text s = welcome_text \<and>
     (\<forall>tm \<in> set (timers s). \<not> is_Accept (snd (snd tm))) \<and>
     (\<exists>k. (k, D + 1400, CloseAfterJoin) \<in> set (timers s) \<and> timed s \<noteq> k \<and>
          timer_t (scroll_thr s) \<noteq> Some k)"

text \<open>The acceptance with id \<open>i\<close>, due at \<open>D\<close>, is pending and is the last acceptance to run.\<close>

definition pending_join :: "nat \<Rightarrow> int \<Rightarrow> form_data \<Rightarrow> page \<Rightarrow> bool" where
  "pending_join i D p s \<longleftrightarrow>
     (i, D, Accept p) \<in> set (timers s) \<and> timed s \<noteq> i \<and> timer_t (scroll_thr s) \<noteq> Some i \<and>
     (\<forall>tm \<in> set (timers s). is_Accept (snd (snd tm)) \<longrightarrow> fst (snd tm) \<le> D \<and> fst tm \<le> i)"

text \<open>The state between a valid submission and the end of its 900 ms delay.\<close>

definition joining :: "nat \<Rightarrow> int \<Rightarrow> form_data \<Rightarrow> page \<Rightarrow> bool" where
  "joining i D p s \<longleftrightarrow> ids_ok s \<and> clock s \<le> D \<and> (pending_join i D p s \<or> done_join D p s)"

text \<open>With the record stored, the modal is closed or the timer that closes it at \<open>T\<close> is pending.\<close>

definition closing :: "nat \<Rightarrow> int \<Rightarrow> page \<Rightarrow> bool" where
  "closing k T s \<longleftrightarrow>
     ids_ok s \<and> joined s \<and>
     (((k, T, CloseAfterJoin) \<in> set (timers s) \<and> timed s \<noteq> k \<and> timer_t (scroll_thr s) \<noteq> Some k) \<or>
      (\<not> modal_open s \<and> body_overflow s = []))"

section \<open>Validation rules\<close>

lemma messages_distinct:
  "name_error \<noteq> age_error" "name_error \<noteq> email_error" "age_error \<noteq> email_error"
  by (simp_all add: name_error_def age_error_def email_error_def js_def)

lemma set_validateForm:
  "set (validateForm data) =
     (if name_fails data then {name_error} else {}) \<union>
     (if age_fails data then {age_error} else {}) \<union>
     (if email_fails data then {email_error} else {})"
  by (auto simp: validateForm_def)

lemma name_error_iff: "name_error \<in> set (validateForm data) \<longleftrightarrow> name_fails data"
  using messages_distinct by (auto simp: set_validateForm)

lemma age_error_iff: "age_error \<in> set (validateForm data) \<longleftrightarrow> age_fails data"
  using messages_distinct by (auto simp: set_validateForm)

lemma email_error_iff: "email_error \<in> set (validateForm data) \<longleftrightarrow> email_fails data"
  using messages_distinct by (auto simp: set_validateForm)

lemma trim_Nil [simp]: "trim [] = []"
  by (simp add: trim_def)

lemma name_fails_iff: "name_fails data \<longleftrightarrow> name_missing_or_short (name data)"
  by (auto simp: name_fails_def name_missing_or_short_def split: option.splits)

lemma age_fails_iff: "age_fails data \<longleftrightarrow> age_outside_13_19 (age data)"
  by (auto simp: age_fails_def age_outside_13_19_def split: option.splits)

lemma dropWhile_snoc_keep: "\<not> P x \<Longrightarrow> dropWhile P (xs @ [x]) = dropWhile P xs @ [x]"
  by (induction xs) auto

lemma dropWhile_hd: "xs = [] \<or> \<not> P (hd xs) \<Longrightarrow> dropWhile P xs = xs"
  by (cases xs) auto

lemma trim_shape: "trim s = [] \<or> (\<not> is_ws (hd (trim s)) \<and> \<not> is_ws (last (trim s)))"
proof (cases "dropWhile is_ws s")
  case Nil
  have "trim s = []" unfolding trim_def Nil by simp
  then show ?thesis by simp
next
  case (Cons x u)
  then have nx: "\<not> is_ws x" using hd_dropWhile [of is_ws s] by auto
  have t: "trim s = x # rev (dropWhile is_ws (rev u))"
    using nx by (simp add: trim_def Cons dropWhile_snoc_keep)
  show ?thesis
  proof (cases "dropWhile is_ws (rev u)")
    case Nil
    with t nx show ?thesis by simp
  next
    case (Cons y v)
    then have "\<not> is_ws y" using hd_dropWhile [of is_ws "rev u"] by auto
    with t nx Cons show ?thesis by simp
  qed
qed

lemma trim_trim [simp]: "trim (trim s) = trim s"
proof (cases "trim s = []")
  case True
  then show ?thesis by simp
next
  case False
  with trim_shape [of s] have h: "\<not> is_ws (hd (trim s))" and l: "\<not> is_ws (last (trim s))" by auto
  have 1: "dropWhile is_ws (trim s) = trim s" using h by (simp add: dropWhile_hd)
  have "hd (rev (trim s)) = last (trim s)" using False by (simp add: hd_rev)
  then have 2: "dropWhile is_ws (rev (trim s)) = rev (trim s)" using l by (simp add: dropWhile_hd)
  show ?thesis
    unfolding trim_def [of "trim s"] 1 2 by simp
qed

lemma payload_name_short:
  "name_missing_or_short (name (payload_of fd)) = name_missing_or_short (name fd)"
  by (simp add: payload_of_def name_missing_or_short_def split: option.splits)

lemma submit_rejected: "validateForm (payload_of fd) \<noteq> [] \<Longrightarrow> rejected fd st"
  by (simp add: rejected_def submit_def Let_def)

lemma nonempty_if_mem: "x \<in> set xs \<Longrightarrow> xs \<noteq> []"
  by auto

text \<open>
  C4. A name that is missing or has fewer than two characters once trimmed gets the message
  "Please enter a valid name." and the submission is rejected; a name of at least two
  characters once trimmed gets no name message. The first two parts are about the object
  given to \<open>validateForm\<close>, the third about the fields of the submitted form.
\<close>

theorem name_rule:
  "(name_missing_or_short (name data) \<longrightarrow> name_error \<in> set (validateForm data)) \<and>
   (\<not> name_missing_or_short (name data) \<longrightarrow> name_error \<notin> set (validateForm data)) \<and>
   (name_missing_or_short (name fd) \<longrightarrow>
      name_error \<in> set (validateForm (payload_of fd)) \<and> rejected fd st \<and>
      localStorage (submit fd st) = localStorage st \<and> timers (submit fd st) = timers st)"
proof -
  have a: "name_error \<in> set (validateForm data) \<longleftrightarrow> name_missing_or_short (name data)" for data
    by (simp add: name_error_iff name_fails_iff)
  have b: "name_error \<in> set (validateForm (payload_of fd))" if "name_missing_or_short (name fd)"
    using that by (simp add: a payload_name_short)
  have c: "rejected fd st" if "name_missing_or_short (name fd)"
    using b [OF that] by (intro submit_rejected nonempty_if_mem)
  show ?thesis using a b c by (auto simp: rejected_def)
qed

theorem name_rule_witness:
  "name_missing_or_short (name \<lparr>name = Some (js '' a ''), age = Some (js ''15''), email = None\<rparr>) \<and>
   name_error \<in> set (validateForm \<lparr>name = Some (js '' a ''), age = Some (js ''15''), email = None\<rparr>) \<and>
   \<not> name_missing_or_short (name \<lparr>name = Some (js ''Al''), age = Some (js ''15''), email = None\<rparr>) \<and>
   name_error \<notin> set (validateForm \<lparr>name = Some (js ''Al''), age = Some (js ''15''), email = None\<rparr>) \<and>
   rejected \<lparr>name = Some (js '' a ''), age = Some (js ''15''), email = None\<rparr> (fresh_page 0 0 800 Map.empty False)"
proof -
  have 1: "name_missing_or_short (name \<lparr>name = Some (js '' a ''), age = Some (js ''15''), email = None\<rparr>)"
    by (simp add: name_missing_or_short_def js_def trim_def is_ws_def WhiteSpace_def LineTerminator_def)
  have 2: "\<not> name_missing_or_short (name \<lparr>name = Some (js ''Al''), age = Some (js ''15''), email = None\<rparr>)"
    by (simp add: name_missing_or_short_def js_def trim_def is_ws_def WhiteSpace_def LineTerminator_def)
  show ?thesis
    using 1 2
      name_rule [of "\<lparr>name = Some (js '' a ''), age = Some (js ''15''), email = None\<rparr>"
        "\<lparr>name = Some (js '' a ''), age = Some (js ''15''), email = None\<rparr>" "fresh_page 0 0 800 Map.empty False"]
      name_rule [of "\<lparr>name = Some (js ''Al''), age = Some (js ''15''), email = None\<rparr>"
        "\<lparr>name = Some (js '' a ''), age = Some (js ''15''), email = None\<rparr>" "fresh_page 0 0 800 Map.empty False"]
    by blast
qed

lemma payload_age [simp]: "age (payload_of fd) = age fd"
  by (simp add: payload_of_def)

text \<open>
  C2. An age that \<open>parseInt\<close> does not read as one of 13, ..., 19 (an age that is no number
  included) gets the message "Age must be between 13 and 19.", the submission is rejected
  and the submit listener neither writes to storage nor sets a timer; an age read as one of
  13, ..., 19 gets no age message. The integer read is that of \<open>parseInt\<close>: the digits
  after leading white space and a sign, up to the first other character.
\<close>

theorem age_rule:
  "(age_outside_13_19 (age data) \<longrightarrow> age_error \<in> set (validateForm data)) \<and>
   (\<not> age_outside_13_19 (age data) \<longrightarrow> age_error \<notin> set (validateForm data)) \<and>
   (age_outside_13_19 (age fd) \<longrightarrow>
      age_error \<in> set (validateForm (payload_of fd)) \<and> rejected fd st \<and>
      localStorage (submit fd st) = localStorage st \<and> timers (submit fd st) = timers st)"
proof -
  have a: "age_error \<in> set (validateForm data) \<longleftrightarrow> age_outside_13_19 (age data)" for data
    by (simp add: age_error_iff age_fails_iff)
  have b: "age_error \<in> set (validateForm (payload_of fd))" if "age_outside_13_19 (age fd)"
    using that by (simp add: a)
  have c: "rejected fd st" if "age_outside_13_19 (age fd)"
    using b [OF that] by (intro submit_rejected nonempty_if_mem)
  show ?thesis using a b c by (auto simp: rejected_def)
qed

lemmas eval_str = js_def trim_def is_ws_def WhiteSpace_def LineTerminator_def parseInt_def
  is_digit_def digits_value_def

theorem age_rule_witness:
  "age_outside_13_19 (age \<lparr>name = Some (js ''Asha''), age = Some (js ''12''), email = None\<rparr>) \<and>
   age_error \<in> set (validateForm \<lparr>name = Some (js ''Asha''), age = Some (js ''12''), email = None\<rparr>) \<and>
   age_outside_13_19 (age \<lparr>name = Some (js ''Asha''), age = Some (js ''abc''), email = None\<rparr>) \<and>
   age_error \<in> set (validateForm \<lparr>name = Some (js ''Asha''), age = Some (js ''abc''), email = None\<rparr>) \<and>
   \<not> age_outside_13_19 (age \<lparr>name = Some (js ''Asha''), age = Some (js ''19''), email = None\<rparr>) \<and>
   age_error \<notin> set (validateForm \<lparr>name = Some (js ''Asha''), age = Some (js ''19''), email = None\<rparr>) \<and>
   rejected \<lparr>name = Some (js ''Asha''), age = Some (js ''12''), email = None\<rparr> (fresh_page 0 0 800 Map.empty False)"
proof -
  have 1: "age_outside_13_19 (age \<lparr>name = Some (js ''Asha''), age = Some (js ''12''), email = None\<rparr>)"
    by (simp add: age_outside_13_19_def eval_str)
  have 2: "age_outside_13_19 (age \<lparr>name = Some (js ''Asha''), age = Some (js ''abc''), email = None\<rparr>)"
    by (simp add: age_outside_13_19_def eval_str)
  have 3: "\<not> age_outside_13_19 (age \<lparr>name = Some (js ''Asha''), age = Some (js ''19''), email = None\<rparr>)"
    by (simp add: age_outside_13_19_def eval_str)
  show ?thesis
    using 1 2 3
      age_rule [of "\<lparr>name = Some (js ''Asha''), age = Some (js ''12''), email = None\<rparr>"
        "\<lparr>name = Some (js ''Asha''), age = Some (js ''12''), email = None\<rparr>" "fresh_page 0 0 800 Map.empty False"]
      age_rule [of "\<lparr>name = Some (js ''Asha''), age = Some (js ''abc''), email = None\<rparr>"
        "\<lparr>name = Some (js ''Asha''), age = Some (js ''12''), email = None\<rparr>" "fresh_page 0 0 800 Map.empty False"]
      age_rule [of "\<lparr>name = Some (js ''Asha''), age = Some (js ''19''), email = None\<rparr>"
        "\<lparr>name = Some (js ''Asha''), age = Some (js ''12''), email = None\<rparr>" "fresh_page 0 0 800 Map.empty False"]
    by blast
qed

lemma nonws_plus_iff: "nonws_plus k s \<longleftrightarrow> (\<exists>a r. s = a @ r \<and> nonwhitespace a \<and> k r)"
proof (induction s)
  case Nil
  then show ?case by (simp add: nonwhitespace_def)
next
  case (Cons c cs)
  show ?case
  proof
    assume "nonws_plus k (c # cs)"
    then have c: "\<not> is_ws c" and d: "k cs \<or> nonws_plus k cs" by auto
    from d show "\<exists>a r. c # cs = a @ r \<and> nonwhitespace a \<and> k r"
    proof
      assume "k cs"
      with c have "c # cs = [c] @ cs \<and> nonwhitespace [c] \<and> k cs" by (simp add: nonwhitespace_def)
      then show ?thesis by blast
    next
      assume "nonws_plus k cs"
      with Cons.IH obtain a r where "cs = a @ r" "nonwhitespace a" "k r" by blast
      with c have "c # cs = (c # a) @ r \<and> nonwhitespace (c # a) \<and> k r" by (simp add: nonwhitespace_def)
      then show ?thesis by blast
    qed
  next
    assume "\<exists>a r. c # cs = a @ r \<and> nonwhitespace a \<and> k r"
    then obtain a r where e: "c # cs = a @ r" and n: "nonwhitespace a" and k: "k r" by blast
    from n obtain a' where a: "a = c # a'" using e by (cases a) (auto simp: nonwhitespace_def)
    with e have cs: "cs = a' @ r" by simp
    from n a have c: "\<not> is_ws c" by (simp add: nonwhitespace_def)
    show "nonws_plus k (c # cs)"
    proof (cases "a' = []")
      case True
      with cs k c show ?thesis by simp
    next
      case False
      with n a have "nonwhitespace a'" by (simp add: nonwhitespace_def)
      with cs k Cons.IH have "nonws_plus k cs" by blast
      with c show ?thesis by simp
    qed
  qed
qed

lemma lit_iff: "lit c k s \<longleftrightarrow> (\<exists>r. s = c # r \<and> k r)"
  by (cases s) (auto simp: lit_def)

lemma email_regex_test_iff: "email_regex_test s \<longleftrightarrow> email_pattern s"
  unfolding email_regex_test_def email_pattern_def nonws_plus_iff lit_iff at_end_def
  by (simp, blast)

lemma payload_email: "email (payload_of fd) = map_option trim (email fd)"
  by (simp add: payload_of_def)

text \<open>
  C5. An email that is absent or empty gets no email message; an email that is not empty and
  is not of the form non-white-space, at sign, non-white-space, dot, non-white-space gets the
  message "If provided, email must be valid.", and a submission whose email is such (as the
  listener passes it on, trimmed) is rejected.
\<close>

theorem email_rule:
  "(email data = None \<or> email data = Some [] \<longrightarrow> email_error \<notin> set (validateForm data)) \<and>
   (email data = Some s \<and> s \<noteq> [] \<and> \<not> email_pattern s \<longrightarrow> email_error \<in> set (validateForm data)) \<and>
   (email (payload_of fd) = Some s \<and> s \<noteq> [] \<and> \<not> email_pattern s \<longrightarrow>
      email_error \<in> set (validateForm (payload_of fd)) \<and> rejected fd st \<and>
      localStorage (submit fd st) = localStorage st \<and> timers (submit fd st) = timers st)"
proof -
  have a: "email_error \<in> set (validateForm data) \<longleftrightarrow>
      (\<exists>s. email data = Some s \<and> s \<noteq> [] \<and> \<not> email_pattern s)" for data
    by (auto simp: email_error_iff email_fails_def email_regex_test_iff split: option.splits)
  have c: "rejected fd st" if "email_error \<in> set (validateForm (payload_of fd))"
    using that by (intro submit_rejected nonempty_if_mem)
  show ?thesis using a c by (auto simp: rejected_def)
qed

theorem email_rule_witness:
  "email_error \<notin> set (validateForm \<lparr>name = Some (js ''Asha''), age = Some (js ''15''), email = Some []\<rparr>) \<and>
   email_error \<in> set (validateForm \<lparr>name = Some (js ''Asha''), age = Some (js ''15''), email = Some (js ''asha@home'')\<rparr>) \<and>
   rejected \<lparr>name = Some (js ''Asha''), age = Some (js ''15''), email = Some (js ''asha@home '')\<rparr>
     (fresh_page 0 0 800 Map.empty False)"
proof -
  have n: "\<not> email_pattern (js ''asha@home'')"
    unfolding email_regex_test_iff [symmetric]
    by (simp add: email_regex_test_def lit_def at_end_def eval_str)
  have p: "email (payload_of \<lparr>name = Some (js ''Asha''), age = Some (js ''15''), email = Some (js ''asha@home '')\<rparr>)
      = Some (js ''asha@home'')"
    by (simp add: payload_of_def eval_str)
  have e: "js ''asha@home'' \<noteq> []" by (simp add: js_def)
  show ?thesis
    using n p e
      email_rule [of "\<lparr>name = Some (js ''Asha''), age = Some (js ''15''), email = Some []\<rparr>" "js ''asha@home''"
        "\<lparr>name = Some (js ''Asha''), age = Some (js ''15''), email = Some (js ''asha@home '')\<rparr>"
        "fresh_page 0 0 800 Map.empty False"]
      email_rule [of "\<lparr>name = Some (js ''Asha''), age = Some (js ''15''), email = Some (js ''asha@home'')\<rparr>" "js ''asha@home''"
        "\<lparr>name = Some (js ''Asha''), age = Some (js ''15''), email = Some (js ''asha@home '')\<rparr>"
        "fresh_page 0 0 800 Map.empty False"]
    by simp
qed

lemma email_fails_payload: "email_fails (payload_of fd) \<longleftrightarrow> email_malformed (email fd)"
  by (simp add: email_fails_def email_malformed_def payload_email email_regex_test_iff
      split: option.splits)

lemma validateForm_payload: "validateForm (payload_of fd) = failing_messages fd"
  by (simp add: validateForm_def failing_messages_def name_fails_iff age_fails_iff
      payload_name_short email_fails_payload)

text \<open>
  C6. When the fields of a submitted form fail a rule (the name is missing or shorter than
  two characters once trimmed, the age is not read as one of 13, ..., 19, or the trimmed
  email is neither empty nor of the required form), the submit listener shows the messages
  of exactly the failing rules, in the order of the rules and joined by single spaces, as
  one error text, and does nothing else: the modal stays as it is (open when it was open),
  storage is not written and no timer is set.
\<close>

theorem failed_validation:
  "name_missing_or_short (name fd) \<or> age_outside_13_19 (age fd) \<or> email_malformed (email fd) \<Longrightarrow>
   submit fd st =
     st\<lparr>feedback_text := join (js '' '') (failing_messages fd), feedback_error := True\<rparr> \<and>
   failing_messages fd \<noteq> [] \<and>
   modal_open (submit fd st) = modal_open st \<and>
   localStorage (submit fd st) = localStorage st \<and>
   timers (submit fd st) = timers st \<and>
   (listening st \<longrightarrow> step (Submit fd) st = submit fd st)"
proof -
  assume "name_missing_or_short (name fd) \<or> age_outside_13_19 (age fd) \<or> email_malformed (email fd)"
  then have n: "failing_messages fd \<noteq> []"
    by (auto simp: failing_messages_def)
  then have "submit fd st =
      st\<lparr>feedback_text := join (js '' '') (failing_messages fd), feedback_error := True\<rparr>"
    by (simp add: submit_def Let_def validateForm_payload)
  with n show ?thesis by simp
qed

theorem failed_validation_witness:
  "name_missing_or_short (name \<lparr>name = Some (js ''A''), age = Some (js ''21''), email = Some []\<rparr>) \<and>
   feedback_text (submit \<lparr>name = Some (js ''A''), age = Some (js ''21''), email = Some []\<rparr>
       (openModal (fresh_page 0 0 800 Map.empty True)))
     = js ''Please enter a valid name. Age must be between 13 and 19.'' \<and>
   modal_open (submit \<lparr>name = Some (js ''A''), age = Some (js ''21''), email = Some []\<rparr>
       (openModal (fresh_page 0 0 800 Map.empty True))) \<and>
   localStorage (submit \<lparr>name = Some (js ''A''), age = Some (js ''21''), email = Some []\<rparr>
       (openModal (fresh_page 0 0 800 Map.empty True))) storageKey = None \<and>
   email_malformed (email \<lparr>name = Some (js ''Asha''), age = Some (js ''15''), email = Some (js ''asha@home '')\<rparr>) \<and>
   feedback_text (submit \<lparr>name = Some (js ''Asha''), age = Some (js ''15''), email = Some (js ''asha@home '')\<rparr>
       (openModal (fresh_page 0 0 800 Map.empty True)))
     = js ''If provided, email must be valid.''"
proof -
  let ?fd = "\<lparr>name = Some (js ''A''), age = Some (js ''21''), email = Some []\<rparr>"
  let ?fe = "\<lparr>name = Some (js ''Asha''), age = Some (js ''15''), email = Some (js ''asha@home '')\<rparr>"
  let ?st = "openModal (fresh_page 0 0 800 Map.empty True)"
  have p: "\<not> email_pattern (js ''asha@home'')"
    unfolding email_regex_test_iff [symmetric]
    by (simp add: email_regex_test_def lit_def at_end_def eval_str)
  have t: "trim (js ''asha@home '') = js ''asha@home''" by (simp add: eval_str)
  have 1: "name_missing_or_short (name ?fd)"
    by (simp add: name_missing_or_short_def eval_str)
  have 2: "failing_messages ?fd = [name_error, age_error]"
    by (simp add: failing_messages_def name_missing_or_short_def age_outside_13_19_def
        email_malformed_def eval_str)
  have 3: "join (js '' '') [name_error, age_error]
      = js ''Please enter a valid name. Age must be between 13 and 19.''"
    by (simp add: name_error_def age_error_def js_def)
  have 4: "email_malformed (email ?fe)"
    using p by (simp add: email_malformed_def t) (simp add: js_def)
  have n5: "\<not> name_missing_or_short (name ?fe)" "\<not> age_outside_13_19 (age ?fe)"
    by (simp_all add: name_missing_or_short_def age_outside_13_19_def eval_str)
  have 5: "failing_messages ?fe = [email_error]"
    using 4 n5 by (simp add: failing_messages_def)
  from 1 failed_validation [of ?fd ?st]
  have e: "submit ?fd ?st = ?st\<lparr>feedback_text := join (js '' '') (failing_messages ?fd),
      feedback_error := True\<rparr>"
    by blast
  from 4 failed_validation [of ?fe ?st]
  have f: "submit ?fe ?st = ?st\<lparr>feedback_text := join (js '' '') (failing_messages ?fe),
      feedback_error := True\<rparr>"
    by blast
  have a: "feedback_text (submit ?fd ?st)
      = js ''Please enter a valid name. Age must be between 13 and 19.''"
    unfolding e 2 using 3 by simp
  have b: "modal_open (submit ?fd ?st)" "localStorage (submit ?fd ?st) storageKey = None"
    unfolding e by (simp_all add: openModal_def fresh_page_def)
  have c: "feedback_text (submit ?fe ?st) = js ''If provided, email must be valid.''"
    unfolding f 5 by (simp add: email_error_def)
  from 1 4 a b c show ?thesis by blast
qed

section \<open>The rotator and the reveal observer\<close>

lemma length_testimonials: "length testimonials = 3"
  by (simp add: testimonials_def)

lemma set_t_mod: "set_t (i mod length testimonials) st = set_t i st"
  by (simp add: set_t_def mod_Suc_eq)

lemma set_t_set_t: "set_t j (set_t i st) = set_t j st"
  by (simp add: set_t_def Let_def)

lemma rotate_set_t: "rotate (set_t i st) = set_t (Suc i) st"
proof -
  have "rotate (set_t i st) = set_t (Suc i mod length testimonials) st"
    by (simp add: rotate_def set_t_set_t) (simp add: set_t_def Let_def)
  then show ?thesis by (simp only: set_t_mod)
qed

lemma rotate_funpow: "(rotate ^^ n) (set_t i st) = set_t (i + n) st"
  by (induction n) (simp_all add: rotate_set_t)

text \<open>
  C8. The rotator is cyclic: from the state that \<open>set(i)\<close> leaves, for any \<open>i\<close>, as many
  steps of the interval callback as there are testimonials lead back to the same state (the
  same testimonial shown, the same index); each step shows the testimonial at the index
  modulo the length of the list and moves the index on by one modulo that length.
\<close>

theorem rotator_cyclic:
  "(rotate ^^ length testimonials) (set_t i st) = set_t i st \<and>
   idx (rotate st) = (idx st + 1) mod length testimonials \<and>
   review_textContent (rotate st) = text_t (testimonials ! (idx st mod length testimonials))"
proof -
  have "set_t (i + length testimonials) st = set_t i st"
    using set_t_mod [of "i + length testimonials" st] set_t_mod [of i st] by simp
  then show ?thesis by (simp add: rotate_funpow) (simp add: rotate_def set_t_def Let_def)
qed

lemma on_entry_keeps:
  "el \<in> active st \<Longrightarrow> el \<notin> observed st \<Longrightarrow>
   el \<in> active (on_entry st e) \<and> el \<notin> observed (on_entry st e)"
  by (simp add: on_entry_def)

lemma callback_keeps:
  "el \<in> active st \<Longrightarrow> el \<notin> observed st \<Longrightarrow>
   el \<in> active (observer_callback entries st) \<and> el \<notin> observed (observer_callback entries st)"
  unfolding observer_callback_def
  by (induction entries arbitrary: st) (simp_all add: on_entry_keeps)

lemma callback_append:
  "observer_callback (xs @ ys) st = observer_callback ys (observer_callback xs st)"
  by (simp add: observer_callback_def)

lemma callback_reveals:
  "(el, True) \<in> set entries \<Longrightarrow>
   el \<in> active (observer_callback entries st) \<and> el \<notin> observed (observer_callback entries st)"
proof -
  assume "(el, True) \<in> set entries"
  then obtain xs ys where "entries = xs @ (el, True) # ys" by (meson split_list)
  then have e: "observer_callback entries st
      = observer_callback ys (on_entry (observer_callback xs st) (el, True))"
    by (simp add: observer_callback_def)
  have "el \<in> active (on_entry (observer_callback xs st) (el, True)) \<and>
      el \<notin> observed (on_entry (observer_callback xs st) (el, True))"
    by (simp add: on_entry_def)
  then show ?thesis unfolding e by (simp add: callback_keeps)
qed

lemma callbacks_keep:
  "el \<in> active st \<Longrightarrow> el \<notin> observed st \<Longrightarrow>
   el \<in> active (callbacks batches st) \<and> el \<notin> observed (callbacks batches st)"
  unfolding callbacks_def
  by (induction batches arbitrary: st) (simp_all add: callback_keeps)

text \<open>
  C9. Reveal is one-shot for each element: a callback of the observer with an intersecting
  entry for the element marks it active and stops observing it, and whatever entries later
  callbacks bring, also for this element, an element that is active and no longer observed
  stays so. The observer is created with the threshold 12 percent.
\<close>

theorem reveal_one_shot:
  "((el, True) \<in> set entries \<longrightarrow>
      el \<in> active (callbacks batches (observer_callback entries st)) \<and>
      el \<notin> observed (callbacks batches (observer_callback entries st))) \<and>
   (el \<in> active st \<and> el \<notin> observed st \<longrightarrow>
      el \<in> active (callbacks batches st) \<and> el \<notin> observed (callbacks batches st)) \<and>
   (revealNodes \<noteq> [] \<and> \<not> prefersReducedMotion \<longrightarrow>
      observed (setupScrollReveal revealNodes prefersReducedMotion st) = set revealNodes \<and>
      threshold_percent (setupScrollReveal revealNodes prefersReducedMotion st) = 12)"
  using callback_reveals [of el entries st]
    callbacks_keep [of el "observer_callback entries st" batches]
    callbacks_keep [of el st batches]
  by (auto simp: setupScrollReveal_def)

theorem reveal_one_shot_witness:
  "(5, True) \<in> set [(4, False), (5, True)] \<and>
   5 \<in> active (callbacks [[(5, False)], [(5, True), (4, True)]]
     (observer_callback [(4, False), (5, True)] (setupScrollReveal [4, 5] False \<lparr>active = {}, observed = {}, threshold_percent = 0\<rparr>))) \<and>
   5 \<notin> observed (callbacks [[(5, False)], [(5, True), (4, True)]]
     (observer_callback [(4, False), (5, True)] (setupScrollReveal [4, 5] False \<lparr>active = {}, observed = {}, threshold_percent = 0\<rparr>))) \<and>
   threshold_percent (setupScrollReveal [4, 5] False \<lparr>active = {}, observed = {}, threshold_percent = 0\<rparr>) = 12"
  using reveal_one_shot [where el = 5 and entries = "[(4, False), (5, True)]"
      and batches = "[[(5, False)], [(5, True), (4, True)]]"
      and st = "setupScrollReveal [4, 5] False \<lparr>active = {}, observed = {}, threshold_percent = 0\<rparr>"
      and revealNodes = "[4, 5]" and prefersReducedMotion = False]
  by (simp add: setupScrollReveal_def)

section \<open>throttle\<close>

lemma spaced_snoc:
  "spaced w (ts @ [t]) \<longleftrightarrow> spaced w ts \<and> (ts = [] \<or> last ts + w \<le> t)"
  by (induction w ts rule: spaced.induct) auto

lemma probe_advance_idle:
  "timers pb = [] \<Longrightarrow> probe_advance t pb = pb\<lparr>clock := max (clock pb) t\<rparr>"
  by (simp add: probe_advance.simps)

lemma probe_advance_early:
  "timers pb = [(j, D, a)] \<Longrightarrow> t < D \<Longrightarrow> probe_advance t pb = pb\<lparr>clock := max (clock pb) t\<rparr>"
  by (simp add: probe_advance.simps)

lemma probe_advance_fire:
  "timers pb = [(j, D, a)] \<Longrightarrow> D \<le> t \<Longrightarrow>
   probe_advance t pb =
     pb\<lparr>clock := max (max (clock pb) D) t, timers := [],
        thr := \<lparr>last_t = max (clock pb) D, timer_t = None\<rparr>,
        calls := calls pb @ [(max (clock pb) D, a)]\<rparr>"
  by (subst probe_advance.simps)
    (simp add: probe_advance_idle probe_fire_def probe_fn_def clearTimeout_def throttle_trailing_def)

lemma last_map_fst: "xs \<noteq> [] \<Longrightarrow> last (map fst xs) = fst (last xs)"
  by (simp add: last_map)

lemma probe_inv_call: "probe_inv w pb \<Longrightarrow> probe_inv w (probe_call w a pb)"
  unfolding probe_inv_def probe_call_def throttle_call_def Let_def setTimeout_def
    clearTimeout_def probe_fn_def
  by (auto simp: spaced_snoc split: option.splits)

lemma probe_inv_advance: "probe_inv w pb \<Longrightarrow> probe_inv w (probe_advance t pb)"
proof (cases "timer_t (thr pb)")
  case None
  assume "probe_inv w pb"
  with None show ?thesis by (simp add: probe_inv_def probe_advance_idle)
next
  case (Some j)
  assume i: "probe_inv w pb"
  with Some obtain a where t: "timers pb = [(j, last_t (thr pb) + w, a)]"
    by (auto simp: probe_inv_def)
  show ?thesis
  proof (cases "last_t (thr pb) + w \<le> t")
    case True
    show ?thesis
    proof (cases "calls pb = []")
      case True
      then show ?thesis
        unfolding probe_advance_fire [OF t \<open>last_t (thr pb) + w \<le> t\<close>]
        by (simp add: probe_inv_def)
    next
      case False
      with i have "last (map fst (calls pb)) = last_t (thr pb)" "spaced w (map fst (calls pb))"
        by (simp_all add: probe_inv_def)
      with False show ?thesis
        unfolding probe_advance_fire [OF t \<open>last_t (thr pb) + w \<le> t\<close>]
        by (simp add: probe_inv_def spaced_snoc)
    qed
  next
    case False
    then have "t < last_t (thr pb) + w" by simp
    from probe_advance_early [OF t this] i Some show ?thesis
      by (simp add: probe_inv_def)
  qed
qed

lemma probe_inv_run: "probe_inv w pb \<Longrightarrow> probe_inv w (probe_run w cs pb)"
  by (induction cs arbitrary: pb) (auto simp: probe_inv_call probe_inv_advance)

lemma probe_inv_init: "probe_inv w (probe_init t0)"
  by (simp add: probe_inv_def probe_init_def throttle_new_def)

lemma executions_spaced:
  "spaced w (map fst (calls (probe_advance T (probe_run w cs (probe_init t0)))))"
proof -
  have "probe_inv w (probe_advance T (probe_run w cs (probe_init t0)))"
    by (intro probe_inv_advance probe_inv_run probe_inv_init)
  then show ?thesis by (simp add: probe_inv_def)
qed

text \<open>While the timer is pending and not yet due, further calls change nothing but the clock.\<close>

lemma run_held_back:
  "timers pb = [(j, D, a)] \<Longrightarrow> timer_t (thr pb) = Some j \<Longrightarrow> D = last_t (thr pb) + w \<Longrightarrow>
   clock pb + int (total_delay cs) < D \<Longrightarrow>
   probe_run w cs pb = pb\<lparr>clock := clock pb + int (total_delay cs)\<rparr>"
proof (induction cs arbitrary: pb)
  case Nil
  then show ?case by (simp add: total_delay_def)
next
  case (Cons c cs)
  obtain d x where c: "c = (d, x)" by (cases c)
  let ?pb1 = "pb\<lparr>clock := clock pb + int d\<rparr>"
  from Cons.prems c have lt: "clock pb + int d < D" by (simp add: total_delay_def)
  with Cons.prems have adv: "probe_advance (clock pb + int d) pb = ?pb1"
    by (simp add: probe_advance_early)
  from Cons.prems lt have call: "probe_call w x ?pb1 = ?pb1"
    by (simp add: probe_call_def throttle_call_def Let_def)
  have "probe_run w cs ?pb1 = ?pb1\<lparr>clock := clock ?pb1 + int (total_delay cs)\<rparr>"
    using Cons.prems c by (intro Cons.IH) (simp_all add: total_delay_def)
  then show ?case by (simp add: c adv call total_delay_def)
qed

lemma first_call_runs:
  "timers pb = [] \<Longrightarrow> timer_t (thr pb) = None \<Longrightarrow> w \<le> clock pb - last_t (thr pb) \<Longrightarrow>
   probe_call w a0 pb =
     pb\<lparr>thr := \<lparr>last_t = clock pb, timer_t = None\<rparr>, calls := calls pb @ [(clock pb, a0)]\<rparr>"
  by (simp add: probe_call_def throttle_call_def Let_def probe_fn_def)

lemma second_call_held:
  "timers pb = [] \<Longrightarrow> timer_t (thr pb) = None \<Longrightarrow> clock pb - last_t (thr pb) < w \<Longrightarrow>
   probe_call w a pb =
     pb\<lparr>next_id := Suc (next_id pb), timers := [(next_id pb, last_t (thr pb) + w, a)],
        thr := (thr pb)\<lparr>timer_t := Some (next_id pb)\<rparr>\<rparr>"
  by (simp add: probe_call_def throttle_call_def Let_def setTimeout_def)

lemma held_back_burst:
  assumes "timers pb = []" and "timer_t (thr pb) = None"
    and "clock pb - last_t (thr pb) < wait"
    and "clock pb + int (total_delay cs) < last_t (thr pb) + wait"
    and "last_t (thr pb) + wait \<le> T"
  shows "calls (probe_run wait cs (probe_call wait a0 pb)) = calls pb \<and>
    calls (probe_advance T (probe_run wait cs (probe_call wait a0 pb))) =
      calls pb @ [(last_t (thr pb) + wait, a0)]"
proof -
  let ?D = "last_t (thr pb) + wait"
  let ?pb1 = "pb\<lparr>next_id := Suc (next_id pb), timers := [(next_id pb, ?D, a0)],
      thr := (thr pb)\<lparr>timer_t := Some (next_id pb)\<rparr>\<rparr>"
  have held: "probe_call wait a0 pb = ?pb1"
    using assms by (simp add: second_call_held)
  have rest: "probe_run wait cs ?pb1 = ?pb1\<lparr>clock := clock ?pb1 + int (total_delay cs)\<rparr>"
    using assms by (intro run_held_back [where j = "next_id pb" and a = a0 and D = ?D]) simp_all
  show ?thesis
    unfolding held rest using assms
    by (simp add: probe_advance_fire [where j = "next_id pb" and a = a0 and D = ?D])
qed

lemma immediate_burst:
  assumes "timers pb = []" and "timer_t (thr pb) = None"
    and "wait \<le> clock pb - last_t (thr pb)"
    and "int (total_delay cs) < wait" and "clock pb + wait \<le> T"
  shows "calls (probe_run wait cs (probe_call wait a0 pb)) = calls pb @ [(clock pb, a0)] \<and>
    calls (probe_advance T (probe_run wait cs (probe_call wait a0 pb))) =
      calls pb @ [(clock pb, a0)] @
        (case cs of [] \<Rightarrow> [] | (d, a1) # cs' \<Rightarrow> [(clock pb + wait, a1)])"
proof -
  let ?pb1 = "pb\<lparr>thr := \<lparr>last_t = clock pb, timer_t = None\<rparr>, calls := calls pb @ [(clock pb, a0)]\<rparr>"
  have first: "probe_call wait a0 pb = ?pb1"
    using assms by (simp add: first_call_runs)
  show ?thesis
  proof (cases cs)
    case Nil
    with assms show ?thesis unfolding first by (simp add: probe_advance_idle)
  next
    case (Cons c cs')
    obtain d a1 where c: "c = (d, a1)" by (cases c)
    from assms Cons c have d: "int d + int (total_delay cs') < wait"
      by (simp add: total_delay_def)
    let ?pb2 = "?pb1\<lparr>clock := clock pb + int d\<rparr>"
    have adv: "probe_advance (clock ?pb1 + int d) ?pb1 = ?pb2"
      using assms by (simp add: probe_advance_idle)
    have "calls (probe_run wait cs' (probe_call wait a1 ?pb2)) = calls ?pb2 \<and>
      calls (probe_advance T (probe_run wait cs' (probe_call wait a1 ?pb2))) =
        calls ?pb2 @ [(last_t (thr ?pb2) + wait, a1)]"
      using assms d by (intro held_back_burst) simp_all
    then show ?thesis
      unfolding first using adv by (simp add: Cons c)
  qed
qed

text \<open>
  C3, as amended. A burst of calls of a throttled function comes with no timer pending, and
  all its calls come before the window that it opens or finds open has ended. If the burst
  begins at least \<open>wait\<close> after the latest execution, \<open>fn\<close> runs once at once, with the
  arguments of the first call, and not again during the burst; if the burst has more than
  one call, exactly one trailing execution follows, \<open>wait\<close> after the first call, with the
  arguments of the second call of the burst (the first call that was held back), whatever
  the later calls passed; a burst of one call has no trailing execution. If the burst
  begins less than \<open>wait\<close> after the latest execution, \<open>fn\<close> does not run during the burst,
  and exactly one trailing execution follows, \<open>wait\<close> after the latest execution, with the
  arguments of the first call of the burst. In every run of calls, executions are at least
  \<open>wait\<close> apart.
\<close>

theorem throttle_burst:
  "(timers pb = [] \<and> timer_t (thr pb) = None \<and> wait \<le> clock pb - last_t (thr pb) \<and>
    int (total_delay cs) < wait \<and> clock pb + wait \<le> T \<longrightarrow>
      calls (probe_run wait cs (probe_call wait a0 pb)) = calls pb @ [(clock pb, a0)] \<and>
      calls (probe_advance T (probe_run wait cs (probe_call wait a0 pb))) =
        calls pb @ [(clock pb, a0)] @
          (case cs of [] \<Rightarrow> [] | (d, a1) # cs' \<Rightarrow> [(clock pb + wait, a1)])) \<and>
   (timers pb = [] \<and> timer_t (thr pb) = None \<and> clock pb - last_t (thr pb) < wait \<and>
    clock pb + int (total_delay cs) < last_t (thr pb) + wait \<and> last_t (thr pb) + wait \<le> T \<longrightarrow>
      calls (probe_run wait cs (probe_call wait a0 pb)) = calls pb \<and>
      calls (probe_advance T (probe_run wait cs (probe_call wait a0 pb))) =
        calls pb @ [(last_t (thr pb) + wait, a0)]) \<and>
   spaced wait (map fst (calls (probe_advance T' (probe_run wait cs' (probe_init t0)))))"
  using immediate_burst [of pb wait cs T a0] held_back_burst [of pb wait cs T a0]
    executions_spaced [of wait T' cs' t0]
  by blast

lemmas eval_probe = probe_advance.simps probe_init_def probe_call_def throttle_call_def
  throttle_new_def probe_fn_def probe_fire_def setTimeout_def clearTimeout_def throttle_trailing_def

theorem throttle_burst_witness:
  "calls (probe_run 100 [(10, 2), (10, 3)] (probe_call 100 (1::nat) (probe_init 1000))) = [(1000, 1)] \<and>
   calls (probe_advance 1100 (probe_run 100 [(10, 2), (10, 3)] (probe_call 100 (1::nat) (probe_init 1000))))
     = [(1000, 1), (1100, 2)] \<and>
   calls (probe_advance 100 (probe_run 100 [(10, 2), (10, 3)] (probe_call 100 (1::nat) (probe_init 50))))
     = [(100, 1)] \<and>
   spaced 100 (map fst (calls (probe_advance 1100 (probe_run 100 [(0, 1::nat), (10, 2), (10, 3)] (probe_init 1000)))))"
proof -
  have a: "timers (probe_init 1000 :: nat probe) = [] \<and> timer_t (thr (probe_init 1000 :: nat probe)) = None \<and>
      100 \<le> clock (probe_init 1000 :: nat probe) - last_t (thr (probe_init 1000 :: nat probe)) \<and>
      int (total_delay [(10, 2::nat), (10, 3)]) < 100 \<and> clock (probe_init 1000 :: nat probe) + 100 \<le> 1100"
    by (simp add: probe_init_def throttle_new_def total_delay_def)
  have b: "timers (probe_init 50 :: nat probe) = [] \<and> timer_t (thr (probe_init 50 :: nat probe)) = None \<and>
      clock (probe_init 50 :: nat probe) - last_t (thr (probe_init 50 :: nat probe)) < 100 \<and>
      clock (probe_init 50 :: nat probe) + int (total_delay [(10, 2::nat), (10, 3)])
        < last_t (thr (probe_init 50 :: nat probe)) + 100 \<and>
      last_t (thr (probe_init 50 :: nat probe)) + 100 \<le> 100"
    by (simp add: probe_init_def throttle_new_def total_delay_def)
  have v: "clock (probe_init 1000 :: nat probe) = 1000" "calls (probe_init 1000 :: nat probe) = []"
    "calls (probe_init 50 :: nat probe) = []" "last_t (thr (probe_init 50 :: nat probe)) = 0"
    by (simp_all add: probe_init_def throttle_new_def)
  from a throttle_burst [of "probe_init 1000" 100 "[(10, 2), (10, 3)]" 1100 "1::nat" 1100
      "[(0, 1::nat), (10, 2), (10, 3)]" 1000]
  have "calls (probe_run 100 [(10, 2), (10, 3)] (probe_call 100 (1::nat) (probe_init 1000)))
      = calls (probe_init 1000) @ [(clock (probe_init 1000 :: nat probe), 1)] \<and>
    calls (probe_advance 1100 (probe_run 100 [(10, 2), (10, 3)] (probe_call 100 (1::nat) (probe_init 1000))))
      = calls (probe_init 1000) @ [(clock (probe_init 1000 :: nat probe), 1)] @
          (case [(10::nat, 2::nat), (10, 3)] of [] \<Rightarrow> []
           | (d, a1) # cs' \<Rightarrow> [(clock (probe_init 1000 :: nat probe) + 100, a1)]) \<and>
    spaced 100 (map fst (calls (probe_advance 1100 (probe_run 100 [(0, 1::nat), (10, 2), (10, 3)] (probe_init 1000)))))"
    by blast
  then have 1: "calls (probe_run 100 [(10, 2), (10, 3)] (probe_call 100 (1::nat) (probe_init 1000))) = [(1000, 1)] \<and>
    calls (probe_advance 1100 (probe_run 100 [(10, 2), (10, 3)] (probe_call 100 (1::nat) (probe_init 1000))))
      = [(1000, 1), (1100, 2)] \<and>
    spaced 100 (map fst (calls (probe_advance 1100 (probe_run 100 [(0, 1::nat), (10, 2), (10, 3)] (probe_init 1000)))))"
    unfolding v by simp
  from b throttle_burst [of "probe_init 50" 100 "[(10, 2), (10, 3)]" 100 "1::nat" 0 "[]" 0]
  have "calls (probe_advance 100 (probe_run 100 [(10, 2), (10, 3)] (probe_call 100 (1::nat) (probe_init 50))))
     = calls (probe_init 50) @ [(last_t (thr (probe_init 50 :: nat probe)) + 100, 1)]"
    by blast
  then have 2: "calls (probe_advance 100 (probe_run 100 [(10, 2), (10, 3)] (probe_call 100 (1::nat) (probe_init 50))))
     = [(100, 1)]"
    unfolding v by simp
  from 1 2 show ?thesis by blast
qed

text \<open>
  C3 as it was stated fails: in a burst of three calls with arguments 1, 2 and 3 the trailing
  execution gets 2, not the 3 of the final call; and a burst of one call has no trailing
  execution at all.
\<close>

theorem trailing_arguments_counterexample:
  "calls (probe_advance 1100 (probe_run 100 [(0, 1), (10, 2), (10, 3)] (probe_init 1000)))
     = [(1000, 1), (1100, 2::nat)] \<and>
   snd (last (calls (probe_advance 1100 (probe_run 100 [(0, 1), (10, 2), (10, 3::nat)] (probe_init 1000)))))
     \<noteq> snd (last [(0::nat, 1), (10, 2), (10, 3::nat)]) \<and>
   calls (probe_advance 1100 (probe_run 100 [(0, 1::nat)] (probe_init 1000))) = [(1000, 1)]"
  by (simp add: eval_probe)

section \<open>The signup modal: what holds in every run\<close>

text \<open>
  A property of \<open>advance\<close> is proved by the rule below: it holds of the state before, each
  callback that runs keeps it, and at the end no timer is due any more.
\<close>

lemma earliest_None: "earliest xs = None \<longleftrightarrow> xs = []"
  by (induction xs) (auto split: option.splits)

lemma earliest_le: "earliest xs = Some x \<Longrightarrow> y \<in> set xs \<Longrightarrow> fst (snd x) \<le> fst (snd y)"
proof (induction xs arbitrary: x)
  case Nil
  then show ?case by simp
next
  case (Cons a xs)
  show ?case
  proof (cases "earliest xs")
    case None
    then have "xs = []" by (simp add: earliest_None)
    with Cons.prems show ?thesis by simp
  next
    case (Some z)
    have z: "y \<in> set xs \<Longrightarrow> fst (snd z) \<le> fst (snd y)" using Cons.IH [OF Some] by simp
    show ?thesis
    proof (cases "fst (snd z) < fst (snd a)")
      case True
      with Cons.prems Some have "x = z" by simp
      with z True Cons.prems(2) show ?thesis by auto
    next
      case False
      with Cons.prems Some have "x = a" by simp
      with z False Cons.prems(2) show ?thesis by auto
    qed
  qed
qed

lemma advance_rule:
  assumes "P st"
    and "\<And>s i due cb. P s \<Longrightarrow> earliest (timers s) = Some (i, due, cb) \<Longrightarrow> due \<le> t \<Longrightarrow>
           P (fire cb ((clearTimeout i s)\<lparr>clock := max (clock s) due\<rparr>))"
    and "\<And>s. P s \<Longrightarrow> \<forall>tm \<in> set (timers s). t < fst (snd tm) \<Longrightarrow> Q (s\<lparr>clock := max (clock s) t\<rparr>)"
  shows "Q (advance t st)"
  using assms
proof (induction t st rule: advance.induct)
  case (1 t st)
  note inv = "1.prems"(1) and fires = "1.prems"(2) and ends = "1.prems"(3)
  show ?case
  proof (cases "earliest (timers st)")
    case None
    then have "timers st = []" by (simp add: earliest_None)
    with inv ends [of st] have "Q (st\<lparr>clock := max (clock st) t\<rparr>)" by simp
    with None show ?thesis by (subst advance.simps) simp
  next
    case (Some x)
    obtain i due cb where x: "x = (i, due, cb)" by (cases x)
    show ?thesis
    proof (cases "due \<le> t")
      case True
      have "P (fire cb ((clearTimeout i st)\<lparr>clock := max (clock st) due\<rparr>))"
        using fires inv Some x True by blast
      then have "Q (advance t (fire cb ((clearTimeout i st)\<lparr>clock := max (clock st) due\<rparr>)))"
        using "1.IH" [OF Some [unfolded x] refl refl True _ fires ends] by blast
      then show ?thesis using Some x True by (subst advance.simps) simp
    next
      case False
      have "\<forall>tm \<in> set (timers st). t < fst (snd tm)"
        using earliest_le [OF Some] False x by fastforce
      with ends [of st] inv have "Q (st\<lparr>clock := max (clock st) t\<rparr>)" by simp
      then show ?thesis using Some x False by (subst advance.simps) simp
    qed
  qed
qed

subsection \<open>Runs of events\<close>

lemma run_Nil [simp]: "run [] st = st"
  by (simp add: run_def)

lemma run_snoc [simp]: "run (evs @ [e]) st = step e (run evs st)"
  by (simp add: run_def)

lemma run_Cons: "run (e # evs) st = run evs (step e st)"
  by (simp add: run_def)

lemma run_append: "run (evs @ evs') st = run evs' (run evs st)"
  by (simp add: run_def)

lemmas page_defs = showAfter_def openModal_def closeModal_def scroll_check_def
  scroll_listener_def dispatch_scroll_def throttle_call_def throttle_trailing_def
  setTimeout_def clearTimeout_def submit_def Let_def

subsection \<open>The modal is opened at most once\<close>

text \<open>Only \<open>showAfter\<close> opens the modal, and it sets \<open>shown\<close> when it does.\<close>

lemma once_fire: "once s \<Longrightarrow> once (fire cb ((clearTimeout i s)\<lparr>clock := c\<rparr>))"
  by (cases cb) (auto simp: once_def page_defs split: option.splits)

lemma once_advance: "once s \<Longrightarrow> once (advance t s)"
  by (rule advance_rule [where P = once]) (auto simp: once_fire, simp add: once_def)

lemma once_step: "once s \<Longrightarrow> once (step e s)"
  by (cases e) (auto simp: once_advance, auto simp: once_def page_defs split: option.splits)

lemma once_run: "once s \<Longrightarrow> once (run evs s)"
  by (induction evs rule: rev_induct) (simp_all add: once_step)

lemma once_init: "once (init (fresh_page t0 y h sto el))"
  by (simp add: once_def init_def setupCTAModal_def fresh_page_def setTimeout_def joined_def)

subsection \<open>With a join record in storage nothing opens the modal\<close>

text \<open>No listener and no callback of the script removes the entry, and \<open>showAfter\<close> reads it.\<close>

lemma closed_fire: "closed_since n m s \<Longrightarrow> closed_since n m (fire cb ((clearTimeout i s)\<lparr>clock := c\<rparr>))"
  by (cases cb) (auto simp: closed_since_def joined_def page_defs split: option.splits)

lemma closed_advance: "closed_since n m s \<Longrightarrow> closed_since n m (advance t s)"
  by (rule advance_rule [where P = "closed_since n m"]) (auto simp: closed_fire, simp add: closed_since_def joined_def)

lemma closed_step: "keeps_record e \<Longrightarrow> closed_since n m s \<Longrightarrow> closed_since n m (step e s)"
  by (cases e) (auto simp: closed_advance,
      auto simp: closed_since_def page_defs keeps_record_def joined_def split: option.splits stored.splits)

lemma closed_run: "\<forall>e \<in> set evs. keeps_record e \<Longrightarrow> closed_since n m s \<Longrightarrow> closed_since n m (run evs s)"
  by (induction evs rule: rev_induct) (simp_all add: closed_step)

subsection \<open>When setupCTAModal returned early\<close>

lemma inert_fire:
  "inert el s \<Longrightarrow> earliest (timers s) = Some (i, due, cb) \<Longrightarrow>
   inert el (fire cb ((clearTimeout i s)\<lparr>clock := c\<rparr>))"
proof -
  assume a: "inert el s" and e: "earliest (timers s) = Some (i, due, cb)"
  from earliest_mem [OF e] a have "cb = InitScroll" by (fastforce simp: inert_def)
  with a show ?thesis by (auto simp: inert_def page_defs)
qed

lemma inert_advance: "inert el s \<Longrightarrow> inert el (advance t s)"
  by (rule advance_rule [where P = "inert el"]) (auto simp: inert_fire, simp add: inert_def)

lemma inert_step: "inert el s \<Longrightarrow> inert el (step e s)"
  by (cases e) (auto simp: inert_advance, auto simp: inert_def page_defs)

lemma inert_run: "inert el s \<Longrightarrow> inert el (run evs s)"
  by (induction evs rule: rev_induct) (simp_all add: inert_step)

lemma inert_init:
  "joined (fresh_page t0 y h sto el) \<or> el \<Longrightarrow> inert el (init (fresh_page t0 y h sto el))"
  by (auto simp: inert_def init_def setupCTAModal_def setTimeout_def) (simp_all add: fresh_page_def)

subsection \<open>Timer ids\<close>

text \<open>
  \<open>clearTimeout\<close> removes by id; that the ids in the list are distinct, and those the script
  holds belong to its own timers, is what makes it remove the right timer.
\<close>

lemma ids_sorted_Nil [simp]: "ids_sorted n []"
  by (simp add: ids_sorted_def)

lemma ids_sorted_filter: "ids_sorted n ts \<Longrightarrow> ids_sorted n (filter P ts)"
  by (auto simp: ids_sorted_def sorted_wrt_map sorted_wrt_filter)

lemma ids_sorted_snoc: "ids_sorted n ts \<Longrightarrow> ids_sorted (Suc n) (ts @ [(n, d, cb)])"
  by (auto simp: ids_sorted_def sorted_wrt_append less_Suc_eq)

lemma ids_sorted_Suc: "ids_sorted n ts \<Longrightarrow> ids_sorted (Suc n) ts"
  by (auto simp: ids_sorted_def less_Suc_eq)

lemma ids_sorted_less: "ids_sorted n ts \<Longrightarrow> tm \<in> set ts \<Longrightarrow> fst tm < n"
  by (simp add: ids_sorted_def)

lemma ids_sorted_unique:
  "ids_sorted n ts \<Longrightarrow> tm \<in> set ts \<Longrightarrow> tm' \<in> set ts \<Longrightarrow> fst tm = fst tm' \<Longrightarrow> tm = tm'"
proof -
  assume a: "ids_sorted n ts" "tm \<in> set ts" "tm' \<in> set ts" "fst tm = fst tm'"
  then have "distinct (map fst ts)"
    by (simp add: ids_sorted_def strict_sorted_iff)
  then have "inj_on fst (set ts)" by (simp add: distinct_map)
  with a show ?thesis by (auto dest: inj_onD)
qed

lemma earliest_first:
  "earliest xs = Some x \<Longrightarrow> sorted_wrt (<) (map fst xs) \<Longrightarrow> y \<in> set xs \<Longrightarrow>
   fst (snd x) < fst (snd y) \<or> fst x \<le> fst y"
proof (induction xs arbitrary: x)
  case Nil
  then show ?case by simp
next
  case (Cons a xs)
  show ?case
  proof (cases "earliest xs")
    case None
    then have "xs = []" by (simp add: earliest_None)
    with Cons.prems show ?thesis by simp
  next
    case (Some z)
    have z: "y \<in> set xs \<Longrightarrow> fst (snd z) < fst (snd y) \<or> fst z \<le> fst y"
      using Cons.IH [OF Some] Cons.prems(2) by simp
    have za: "fst (snd z) \<le> fst (snd y)" if "y \<in> set xs" for y
      using earliest_le [OF Some that] .
    have ay: "fst a < fst y" if "y \<in> set xs"
      using Cons.prems(2) that by auto
    show ?thesis
    proof (cases "fst (snd z) < fst (snd a)")
      case True
      with Cons.prems Some have "x = z" by simp
      with z True Cons.prems(3) show ?thesis by auto
    next
      case False
      with Cons.prems Some have "x = a" by simp
      with za ay False Cons.prems(3) show ?thesis by fastforce
    qed
  qed
qed


lemma clock_fire [simp]: "clock (fire cb s) = clock s"
  by (cases cb) (auto simp: page_defs split: option.splits)

lemma ids_ok_fire: "ids_ok s \<Longrightarrow> ids_ok (fire cb ((clearTimeout i s)\<lparr>clock := c\<rparr>))"
  by (cases cb)
    (auto simp: ids_ok_def page_defs less_Suc_eq
      intro!: ids_sorted_filter ids_sorted_snoc split: option.splits)

lemma ids_ok_advance: "ids_ok s \<Longrightarrow> ids_ok (advance t s)"
  by (rule advance_rule [where P = ids_ok]) (auto simp: ids_ok_fire, simp add: ids_ok_def)

lemma ids_ok_step: "ids_ok s \<Longrightarrow> ids_ok (step e s)"
  by (cases e)
    (auto simp: ids_ok_advance,
     auto simp: ids_ok_def page_defs less_Suc_eq
      intro!: ids_sorted_filter ids_sorted_snoc split: option.splits)

lemma ids_ok_run: "ids_ok s \<Longrightarrow> ids_ok (run evs s)"
  by (induction evs rule: rev_induct) (simp_all add: ids_ok_step)

lemma ids_ok_init: "ids_ok (init (fresh_page t0 y h sto el))"
  by (auto simp: ids_ok_def init_def setupCTAModal_def setTimeout_def fresh_page_def throttle_new_def
      ids_sorted_def)

subsection \<open>Pending acceptances and overdue timers\<close>

lemma accepts_ok_fire:
  "accepts_ok s \<Longrightarrow> accepts_ok (fire cb ((clearTimeout i s)\<lparr>clock := max (clock s) due\<rparr>))"
  by (cases cb) (auto simp: accepts_ok_def page_defs split: option.splits)

lemma accepts_ok_advance: "accepts_ok s \<Longrightarrow> accepts_ok (advance t s)"
  by (rule advance_rule [where P = accepts_ok]) (auto simp: accepts_ok_fire, auto simp: accepts_ok_def)

lemma accepts_ok_step: "accepts_ok s \<Longrightarrow> accepts_ok (step e s)"
  by (cases e)
    (auto simp: accepts_ok_advance, auto simp: accepts_ok_def page_defs split: option.splits)

lemma accepts_ok_run: "accepts_ok s \<Longrightarrow> accepts_ok (run evs s)"
  by (induction evs rule: rev_induct) (simp_all add: accepts_ok_step)

lemma accepts_ok_init: "accepts_ok (init (fresh_page t0 y h sto el))"
  by (auto simp: accepts_ok_def init_def setupCTAModal_def setTimeout_def fresh_page_def)

lemma settled_advance: "clock s \<le> t \<Longrightarrow> settled (advance t s) \<and> clock (advance t s) = t"
  by (rule advance_rule [where P = "\<lambda>s. clock s \<le> t"]) (auto simp: settled_def)

lemma settled_step: "settled s \<Longrightarrow> settled (step e s)"
  by (cases e)
    (auto simp: settled_advance, auto simp: settled_def page_defs split: option.splits)

lemma settled_run: "settled s \<Longrightarrow> settled (run evs s)"
  by (induction evs rule: rev_induct) (simp_all add: settled_step)

lemma settled_init: "settled (init (fresh_page t0 y h sto el))"
  by (auto simp: settled_def init_def setupCTAModal_def setTimeout_def fresh_page_def)


subsection \<open>The throttle of the scroll listener\<close>

lemma pending_other:
  assumes "ids_ok s" and "(i, due, cb) \<in> set (timers s)" and "(j, d, cb') \<in> set (timers s)"
    and "cb \<noteq> cb'"
  shows "j \<noteq> i"
proof
  assume "j = i"
  with assms have "(i, due, cb) = (j, d, cb')"
    by (intro ids_sorted_unique [of "next_id s" "timers s"]) (simp_all add: ids_ok_def)
  with assms(4) show False by simp
qed

lemma throttle_ok_fire:
  assumes t: "throttle_ok s" and i: "ids_ok s" and e: "earliest (timers s) = Some (i, due, cb)"
  shows "throttle_ok (fire cb ((clearTimeout i s)\<lparr>clock := max (clock s) due\<rparr>))"
proof -
  have m: "(i, due, cb) \<in> set (timers s)" using earliest_mem [OF e] .
  have keep: "j \<noteq> i" if "cb \<noteq> ScrollTrailing" "(j, d, ScrollTrailing) \<in> set (timers s)" for j d
    using pending_other [OF i m that(2) that(1)] .
  have tm: "timed s \<noteq> j" if "timer_t (scroll_thr s) = Some j" for j
    using i that by (auto simp: ids_ok_def)
  show ?thesis
  proof (cases cb)
    case ShowTimer
    with t keep show ?thesis by (fastforce simp: throttle_ok_def page_defs)
  next
    case ScrollTrailing
    then show ?thesis by (auto simp: throttle_ok_def page_defs)
  next
    case (Accept p)
    with t keep show ?thesis by (fastforce simp: throttle_ok_def page_defs)
  next
    case CloseAfterJoin
    with t keep show ?thesis by (fastforce simp: throttle_ok_def page_defs)
  next
    case InitScroll
    with t keep tm show ?thesis
      by (auto simp: throttle_ok_def page_defs split: option.splits) fastforce+
  qed
qed

lemma throttle_ok_advance: "throttle_ok s \<Longrightarrow> ids_ok s \<Longrightarrow> throttle_ok (advance t s) "
proof -
  assume "throttle_ok s" "ids_ok s"
  then have "throttle_ok s \<and> ids_ok s" by simp
  then have "throttle_ok (advance t s) \<and> ids_ok (advance t s)"
    by (rule advance_rule [where P = "\<lambda>s. throttle_ok s \<and> ids_ok s"])
      (auto simp: throttle_ok_fire ids_ok_fire, auto simp: throttle_ok_def ids_ok_def)
  then show ?thesis by simp
qed

lemma throttle_ok_step: "throttle_ok s \<Longrightarrow> ids_ok s \<Longrightarrow> throttle_ok (step e s)"
proof (cases e)
  case (Wait d)
  assume "throttle_ok s" "ids_ok s"
  with Wait show ?thesis by (simp add: throttle_ok_advance)
next
  case (Scroll y)
  assume "throttle_ok s" "ids_ok s"
  with Scroll show ?thesis
    by (auto simp: throttle_ok_def ids_ok_def page_defs split: option.splits)
qed (auto simp: throttle_ok_def page_defs)

lemma throttle_ok_run: "throttle_ok s \<Longrightarrow> ids_ok s \<Longrightarrow> throttle_ok (run evs s)"
  by (induction evs rule: rev_induct) (simp_all add: throttle_ok_step ids_ok_run)

lemma throttle_ok_init: "0 \<le> t0 \<Longrightarrow> throttle_ok (init (fresh_page t0 y h sto el))"
  by (auto simp: throttle_ok_def init_def setupCTAModal_def setTimeout_def fresh_page_def throttle_new_def)

subsection \<open>The 6000 ms timer\<close>

text \<open>
  As long as storage holds no join record, the timer that \<open>setupCTAModal\<close> set stays pending
  until it runs or the scroll check cancels it, and either shows the modal.
\<close>

lemma awaiting_fire:
  assumes a: "awaiting t0 s" and i: "ids_ok s" and e: "earliest (timers s) = Some (i, due, cb)"
  shows "awaiting t0 (fire cb ((clearTimeout i s)\<lparr>clock := c\<rparr>))"
proof -
  have m: "(i, due, cb) \<in> set (timers s)" using earliest_mem [OF e] .
  have keep: "timed s \<noteq> i" if "cb \<noteq> ShowTimer" "(timed s, t0 + 6000, ShowTimer) \<in> set (timers s)"
    using pending_other [OF i m that(2) that(1)] .
  have tm: "timed s \<noteq> j" if "timer_t (scroll_thr s) = Some j" for j
    using i that by (auto simp: ids_ok_def)
  show ?thesis
  proof (cases cb)
    case ShowTimer
    with a show ?thesis by (auto simp: awaiting_def joined_def page_defs)
  next
    case ScrollTrailing
    with a keep show ?thesis by (auto simp: awaiting_def joined_def page_defs)
  next
    case (Accept p)
    with a m show ?thesis by (auto simp: awaiting_def)
  next
    case CloseAfterJoin
    with a keep show ?thesis by (auto simp: awaiting_def joined_def page_defs)
  next
    case InitScroll
    with a keep tm show ?thesis
      by (auto simp: awaiting_def joined_def page_defs split: option.splits)
  qed
qed

lemma awaiting_advance:
  "awaiting t0 s \<Longrightarrow> ids_ok s \<Longrightarrow> awaiting t0 (advance t s)"
proof -
  assume "awaiting t0 s" "ids_ok s"
  then have "awaiting t0 s \<and> ids_ok s" by simp
  then have "awaiting t0 (advance t s) \<and> ids_ok (advance t s)"
    by (rule advance_rule [where P = "\<lambda>s. awaiting t0 s \<and> ids_ok s"])
      (auto simp: awaiting_fire ids_ok_fire, auto simp: awaiting_def ids_ok_def joined_def)
  then show ?thesis by simp
qed

lemma awaiting_step: "writes_no_record e \<Longrightarrow> awaiting t0 s \<Longrightarrow> ids_ok s \<Longrightarrow> awaiting t0 (step e s)"
proof (cases e)
  case (Wait d)
  assume "awaiting t0 s" "ids_ok s"
  with Wait show ?thesis by (simp add: awaiting_advance)
next
  case (Scroll y)
  assume "awaiting t0 s" "ids_ok s"
  with Scroll show ?thesis
    by (auto simp: awaiting_def ids_ok_def joined_def page_defs split: option.splits)
qed (auto simp: awaiting_def joined_def page_defs writes_no_record_def)

lemma awaiting_run:
  "\<forall>e \<in> set evs. writes_no_record e \<Longrightarrow> awaiting t0 s \<Longrightarrow> ids_ok s \<Longrightarrow> awaiting t0 (run evs s)"
  by (induction evs rule: rev_induct) (simp_all add: awaiting_step ids_ok_run)

lemma awaiting_init:
  "\<not> joined (fresh_page t0 y h sto False) \<Longrightarrow> awaiting t0 (init (fresh_page t0 y h sto False))"
  by (auto simp: awaiting_def init_def setupCTAModal_def setTimeout_def joined_def)
    (simp_all add: fresh_page_def)

lemma shown_by_6000:
  assumes "\<not> joined (fresh_page t0 y h sto False)" and "\<forall>e \<in> set evs. writes_no_record e"
    and "t0 + 6000 \<le> clock (run evs (init (fresh_page t0 y h sto False)))"
  shows "opened (run evs (init (fresh_page t0 y h sto False))) = 1"
proof -
  let ?s = "run evs (init (fresh_page t0 y h sto False))"
  have a: "awaiting t0 ?s"
    using assms by (intro awaiting_run awaiting_init ids_ok_init)
  have s: "settled ?s" by (intro settled_run settled_init)
  have o: "once ?s" by (intro once_run once_init)
  have "shown ?s"
  proof (rule ccontr)
    assume "\<not> shown ?s"
    with a have "(timed ?s, t0 + 6000, ShowTimer) \<in> set (timers ?s)" by (simp add: awaiting_def)
    with s have "clock ?s < t0 + 6000" by (fastforce simp: settled_def)
    with assms(3) show False by simp
  qed
  with o show ?thesis by (simp add: once_def)
qed

subsection \<open>Before the 6000 ms have passed\<close>

lemma not_yet_fire:
  assumes a: "not_yet t0 s" and e: "earliest (timers s) = Some (i, due, cb)" and d: "due < t0 + 6000"
  shows "not_yet t0 (fire cb ((clearTimeout i s)\<lparr>clock := c\<rparr>))"
proof -
  have m: "(i, due, cb) \<in> set (timers s)" using earliest_mem [OF e] .
  with a d have n: "cb \<noteq> ShowTimer" by (fastforce simp: not_yet_def)
  from a n show ?thesis
    by (cases cb) (auto simp: not_yet_def at_or_below_def page_defs split: option.splits)
qed

lemma not_yet_advance:
  "not_yet t0 s \<Longrightarrow> t < t0 + 6000 \<Longrightarrow> not_yet t0 (advance t s)"
  by (rule advance_rule [where P = "not_yet t0"])
    (auto simp: not_yet_fire, auto simp: not_yet_def at_or_below_def)

lemma clock_step: "settled s \<Longrightarrow> clock s \<le> clock (step e s)"
  by (cases e) (auto simp: settled_advance page_defs split: option.splits)

lemma clock_run: "settled s \<Longrightarrow> clock s \<le> clock (run evs s)"
proof (induction evs rule: rev_induct)
  case Nil
  then show ?case by simp
next
  case (snoc e evs)
  have "settled (run evs s)" using snoc.prems by (rule settled_run)
  from clock_step [OF this, of e] snoc show ?case by simp
qed

lemma position_dispatch_scroll [simp]:
  "scrollY (dispatch_scroll s) = scrollY s" "innerHeight (dispatch_scroll s) = innerHeight s"
  by (auto simp: page_defs split: option.splits)

lemma not_yet_step:
  assumes "at_or_below (step e s)" and "not_yet t0 s" and "clock (step e s) < t0 + 6000"
    and "settled s"
  shows "not_yet t0 (step e s)"
proof (cases e)
  case (Wait d)
  have "clock (advance (clock s + int d) s) = clock s + int d"
    by (simp add: settled_advance)
  with assms Wait show ?thesis by (simp add: not_yet_advance)
next
  case (Scroll y)
  from assms(1) Scroll have "100 * y \<le> 45 * innerHeight s" by (simp add: at_or_below_def)
  with assms Scroll show ?thesis
    by (auto simp: not_yet_def at_or_below_def page_defs split: option.splits)
next
  case (Resize h)
  with assms show ?thesis by (auto simp: not_yet_def)
next
  case (Submit fd)
  with assms show ?thesis
    by (auto simp: not_yet_def at_or_below_def page_defs split: option.splits)
qed (use assms in \<open>auto simp: not_yet_def at_or_below_def page_defs\<close>)

lemma not_yet_run:
  assumes "along at_or_below evs s" and "not_yet t0 s" and "settled s"
    and "clock (run evs s) < t0 + 6000"
  shows "not_yet t0 (run evs s)"
  using assms
proof (induction evs arbitrary: s)
  case Nil
  then show ?case by simp
next
  case (Cons e evs)
  have st: "settled (step e s)" using Cons.prems(3) by (rule settled_step)
  from Cons.prems(4) clock_run [OF st, of evs] have c: "clock (step e s) < t0 + 6000"
    by (simp add: run_Cons)
  from Cons.prems have "not_yet t0 (step e s)"
    using c by (intro not_yet_step) simp_all
  with Cons st show ?case by (simp add: run_Cons)
qed

lemma not_yet_init:
  "100 * y \<le> 45 * h \<Longrightarrow> not_yet t0 (init (fresh_page t0 y h sto el))"
  by (auto simp: not_yet_def at_or_below_def init_def setupCTAModal_def setTimeout_def)
    (simp_all add: fresh_page_def)

lemma not_before_6000:
  assumes "100 * y \<le> 45 * h" and "along at_or_below evs (init (fresh_page t0 y h sto el))"
    and "clock (run evs (init (fresh_page t0 y h sto el))) < t0 + 6000"
  shows "opened (run evs (init (fresh_page t0 y h sto el))) = 0"
proof -
  have "not_yet t0 (run evs (init (fresh_page t0 y h sto el)))"
    using assms by (intro not_yet_run not_yet_init settled_init)
  then show ?thesis by (simp add: not_yet_def)
qed

subsection \<open>The scroll trigger\<close>

text \<open>
  A scroll event past 45 percent either runs the check at once or finds or sets the trailing
  timer of the throttle, due within 250 ms. The trailing check reads the position when it
  runs: as long as the position stays past 45 percent and no join record is written,
  whichever check or timer runs first shows the modal.
\<close>

lemma triggered_fire:
  assumes a: "triggered t0 t s" and e: "earliest (timers s) = Some (i, due, cb)"
  shows "triggered t0 t (fire cb ((clearTimeout i s)\<lparr>clock := c\<rparr>))"
proof -
  from a have aw: "awaiting t0 s" and i: "ids_ok s" and p: "past s" by (simp_all add: triggered_def)
  have m: "(i, due, cb) \<in> set (timers s)" using earliest_mem [OF e] .
  have keep: "j \<noteq> i" if "cb \<noteq> ScrollTrailing" "(j, d, ScrollTrailing) \<in> set (timers s)" for j d
    using pending_other [OF i m that(2) that(1)] .
  have aw': "awaiting t0 (fire cb ((clearTimeout i s)\<lparr>clock := c\<rparr>))"
    using awaiting_fire [OF aw i e] .
  have i': "ids_ok (fire cb ((clearTimeout i s)\<lparr>clock := c\<rparr>))"
    using ids_ok_fire [OF i] .
  from aw have nj: "\<not> joined s" by (simp add: awaiting_def)
  have p': "past (fire cb ((clearTimeout i s)\<lparr>clock := c\<rparr>))"
    using p by (cases cb) (auto simp: past_def page_defs split: option.splits)
  have "shown (fire cb ((clearTimeout i s)\<lparr>clock := c\<rparr>)) \<or>
    (\<exists>j d. (j, d, ScrollTrailing) \<in> set (timers (fire cb ((clearTimeout i s)\<lparr>clock := c\<rparr>))) \<and> d \<le> t)"
  proof (cases cb)
    case ShowTimer
    with nj show ?thesis by (auto simp: joined_def page_defs)
  next
    case ScrollTrailing
    with nj p show ?thesis by (auto simp: joined_def past_def page_defs)
  next
    case (Accept fd)
    with aw m show ?thesis by (auto simp: awaiting_def)
  next
    case CloseAfterJoin
    with a keep show ?thesis by (fastforce simp: triggered_def page_defs)
  next
    case InitScroll
    with a keep nj p aw show ?thesis
      by (auto simp: triggered_def awaiting_def joined_def past_def page_defs split: option.splits)
  qed
  with aw' i' p' show ?thesis by (simp add: triggered_def)
qed

lemma triggered_advance:
  assumes "triggered t0 t s"
  shows "triggered t0 t (advance t' s)"
proof (rule advance_rule [where P = "triggered t0 t"])
  show "triggered t0 t s" by fact
next
  fix s i due cb
  assume "triggered t0 t s" "earliest (timers s) = Some (i, due, cb)"
  then show "triggered t0 t (fire cb ((clearTimeout i s)\<lparr>clock := max (clock s) due\<rparr>))"
    by (rule triggered_fire)
next
  fix s
  assume "triggered t0 t s"
  then show "triggered t0 t (s\<lparr>clock := max (clock s) t'\<rparr>)"
    by (simp add: triggered_def awaiting_def ids_ok_def joined_def past_def)
qed

lemma triggered_step:
  assumes t: "triggered t0 t s" and w: "writes_no_record e" and p: "past (step e s)"
  shows "triggered t0 t (step e s)"
proof (cases e)
  case (Wait d)
  with t show ?thesis by (simp add: triggered_advance)
next
  case (Scroll y)
  from t have aw: "awaiting t0 s" and i: "ids_ok s" by (simp_all add: triggered_def)
  have aw': "awaiting t0 (step e s)" using w aw i by (rule awaiting_step)
  have i': "ids_ok (step e s)" using i by (rule ids_ok_step)
  from p Scroll have y: "100 * y > 45 * innerHeight s" by (simp add: past_def)
  from aw have nj: "\<not> joined s" and l: "listening s" by (simp_all add: awaiting_def)
  have "shown (step e s) \<or> (\<exists>j d. (j, d, ScrollTrailing) \<in> set (timers (step e s)) \<and> d \<le> t)"
    using t nj l y unfolding Scroll
    by (auto simp: triggered_def joined_def page_defs split: option.splits)
  with aw' i' p show ?thesis by (simp add: triggered_def)
next
  case (Resize h)
  with t p show ?thesis by (auto simp: triggered_def awaiting_def ids_ok_def joined_def)
next
  case ClickClose
  with t p show ?thesis
    by (auto simp: triggered_def awaiting_def ids_ok_def joined_def past_def page_defs)
next
  case KeyEscape
  with t p show ?thesis
    by (auto simp: triggered_def awaiting_def ids_ok_def joined_def past_def page_defs)
next
  case (Submit fd)
  with t p w show ?thesis
    by (auto simp: triggered_def awaiting_def ids_ok_def joined_def past_def page_defs
        writes_no_record_def)
next
  case (Storage v)
  with t p w show ?thesis
    by (auto simp: triggered_def awaiting_def ids_ok_def joined_def past_def writes_no_record_def)
qed

lemma triggered_run:
  assumes "triggered t0 t s" and "\<forall>e \<in> set evs. writes_no_record e" and "along past evs s"
  shows "triggered t0 t (run evs s)"
  using assms
proof (induction evs arbitrary: s)
  case Nil
  then show ?case by simp
next
  case (Cons e evs)
  from Cons.prems have "triggered t0 t (step e s)" by (intro triggered_step) simp_all
  with Cons show ?case by (simp add: run_Cons)
qed

lemma scroll_triggers:
  assumes aw: "awaiting t0 s" and i: "ids_ok s" and th: "throttle_ok s"
    and y: "100 * y > 45 * innerHeight s"
  shows "triggered t0 (clock s + 250) (step (Scroll y) s)"
proof -
  have aw': "awaiting t0 (step (Scroll y) s)" using aw i by (intro awaiting_step) (simp_all add: writes_no_record_def)
  have i': "ids_ok (step (Scroll y) s)" using i by (rule ids_ok_step)
  have p': "past (step (Scroll y) s)"
    using y by (auto simp: past_def page_defs split: option.splits)
  from aw have nj: "\<not> joined s" and l: "listening s" by (simp_all add: awaiting_def)
  have "shown (step (Scroll y) s) \<or>
    (\<exists>j d. (j, d, ScrollTrailing) \<in> set (timers (step (Scroll y) s)) \<and> d \<le> clock s + 250)"
    using th nj l y
    by (auto simp: throttle_ok_def joined_def page_defs split: option.splits) fastforce+
  with aw' i' p' show ?thesis by (simp add: triggered_def)
qed

lemma clock_dispatch_scroll [simp]: "clock (dispatch_scroll s) = clock s"
  by (auto simp: page_defs split: option.splits)

lemma shown_after_scroll:
  assumes "\<not> joined (fresh_page t0 y h sto False)" and "0 \<le> t0"
    and "\<forall>e \<in> set evs. writes_no_record e"
    and "100 * y' > 45 * innerHeight (run evs (init (fresh_page t0 y h sto False)))"
    and "\<forall>e \<in> set evs'. writes_no_record e"
    and "along past evs' (step (Scroll y') (run evs (init (fresh_page t0 y h sto False))))"
    and "clock (run evs (init (fresh_page t0 y h sto False))) + 250
      \<le> clock (run evs' (step (Scroll y') (run evs (init (fresh_page t0 y h sto False)))))"
  shows "opened (run evs' (step (Scroll y') (run evs (init (fresh_page t0 y h sto False))))) = 1"
proof -
  let ?s = "run evs (init (fresh_page t0 y h sto False))"
  let ?e = "run evs' (step (Scroll y') ?s)"
  have a: "awaiting t0 ?s"
    using assms by (intro awaiting_run awaiting_init ids_ok_init)
  have i: "ids_ok ?s" by (intro ids_ok_run ids_ok_init)
  have th: "throttle_ok ?s" using assms(2) by (intro throttle_ok_run throttle_ok_init ids_ok_init)
  have "triggered t0 (clock ?s + 250) (step (Scroll y') ?s)"
    using a i th assms(4) by (rule scroll_triggers)
  then have tr: "triggered t0 (clock ?s + 250) ?e"
    using assms(5,6) by (rule triggered_run)
  have se: "settled ?e" by (intro settled_run settled_step settled_init)
  have sh: "shown ?e"
  proof (rule ccontr)
    assume "\<not> shown ?e"
    with tr obtain j d where "(j, d, ScrollTrailing) \<in> set (timers ?e)" "d \<le> clock ?s + 250"
      by (auto simp: triggered_def)
    with se assms(7) show False by (fastforce simp: settled_def)
  qed
  have "once ?e" by (intro once_run once_step once_init)
  with sh show ?thesis by (simp add: once_def)
qed

subsection \<open>A valid submission\<close>

text \<open>
  The acceptance set by a submission is the last one in the timer list, so whatever other
  acceptances are pending have run when it runs, and what it writes is what storage holds
  when its 900 ms have passed. After it the entry is a join record, so nothing opens the
  modal again before the closing timer has closed it.
\<close>

lemma next_id_fire: "next_id s \<le> next_id (fire cb s)"
  by (cases cb) (auto simp: page_defs split: option.splits)

lemma joining_fire_own:
  assumes i: "ids_ok s" and c: "clock s \<le> D" and pj: "pending_join i D p s"
    and e: "earliest (timers s) = Some (i, due, cb)"
  shows "done_join D p (fire cb ((clearTimeout i s)\<lparr>clock := max (clock s) due\<rparr>))"
proof -
  have m: "(i, due, cb) \<in> set (timers s)" using earliest_mem [OF e] .
  from pj have x: "(i, D, Accept p) \<in> set (timers s)" by (simp add: pending_join_def)
  from i have srt: "ids_sorted (next_id s) (timers s)" by (simp add: ids_ok_def)
  have "(i, due, cb) = (i, D, Accept p)"
    using srt m x by (rule ids_sorted_unique) simp
  then have due: "due = D" and cb: "cb = Accept p" by simp_all
  have no: "\<not> is_Accept (snd (snd tm))" if "tm \<in> set (timers s)" "fst tm \<noteq> i" for tm
  proof
    assume acc: "is_Accept (snd (snd tm))"
    with pj that have "fst (snd tm) \<le> D" "fst tm \<le> i" by (auto simp: pending_join_def)
    moreover have "D < fst (snd tm) \<or> i \<le> fst tm"
      using earliest_first [OF e _ that(1)] srt due by (simp add: ids_sorted_def)
    ultimately show False using that(2) by simp
  qed
  from i have "timed s < next_id s" "\<forall>j. timer_t (scroll_thr s) = Some j \<longrightarrow> j < next_id s"
    by (simp_all add: ids_ok_def)
  with no c show ?thesis
    unfolding cb due
    by (auto simp: done_join_def page_defs max_def)
qed

lemma joining_fire_other:
  assumes i: "ids_ok s" and pj: "pending_join i D p s"
    and e: "earliest (timers s) = Some (j, due, cb)" and ne: "j \<noteq> i"
  shows "pending_join i D p (fire cb ((clearTimeout j s)\<lparr>clock := c\<rparr>))"
proof -
  from pj have x: "(i, D, Accept p) \<in> set (timers s)" by (simp add: pending_join_def)
  from i x have lt: "i < next_id s" by (auto simp: ids_ok_def dest: ids_sorted_less)
  from pj lt ne show ?thesis
    by (cases cb) (auto simp: pending_join_def page_defs split: option.splits)
qed

lemma done_join_fire:
  assumes i: "ids_ok s" and dj: "done_join D p s"
    and e: "earliest (timers s) = Some (j, due, cb)" and d: "due \<le> D"
  shows "done_join D p (fire cb ((clearTimeout j s)\<lparr>clock := c\<rparr>))"
proof -
  have m: "(j, due, cb) \<in> set (timers s)" using earliest_mem [OF e] .
  from dj obtain k where k: "(k, D + 1400, CloseAfterJoin) \<in> set (timers s)" "timed s \<noteq> k"
    "timer_t (scroll_thr s) \<noteq> Some k"
    by (auto simp: done_join_def)
  from i have srt: "ids_sorted (next_id s) (timers s)" by (simp add: ids_ok_def)
  have kj: "k \<noteq> j"
  proof
    assume "k = j"
    then have "(j, due, cb) = (k, D + 1400, CloseAfterJoin)"
      using srt m k(1) by (intro ids_sorted_unique [OF srt m k(1)]) simp
    with d show False by simp
  qed
  from i k have lt: "k < next_id s" by (auto simp: ids_ok_def dest: ids_sorted_less)
  from dj m have na: "\<not> is_Accept cb" by (fastforce simp: done_join_def)
  have rest: "\<forall>tm \<in> set (timers s). \<not> is_Accept (snd (snd tm))"
    "localStorage s storageKey = Some (JoinRecordJSON (name p) D)" "feedback_text s = welcome_text"
    using dj by (simp_all add: done_join_def)
  have "\<exists>k. (k, D + 1400, CloseAfterJoin) \<in> set (timers (fire cb ((clearTimeout j s)\<lparr>clock := c\<rparr>))) \<and>
      timed (fire cb ((clearTimeout j s)\<lparr>clock := c\<rparr>)) \<noteq> k \<and>
      timer_t (scroll_thr (fire cb ((clearTimeout j s)\<lparr>clock := c\<rparr>))) \<noteq> Some k"
    using k kj lt na
    by (intro exI [of _ k]) (cases cb; auto simp: page_defs split: option.splits)
  moreover have "\<forall>tm \<in> set (timers (fire cb ((clearTimeout j s)\<lparr>clock := c\<rparr>))). \<not> is_Accept (snd (snd tm))"
    using rest(1) na by (cases cb) (auto simp: page_defs split: option.splits)
  moreover have "localStorage (fire cb ((clearTimeout j s)\<lparr>clock := c\<rparr>)) storageKey
      = Some (JoinRecordJSON (name p) D)"
    using rest(2) na by (cases cb) (auto simp: page_defs split: option.splits)
  moreover have "feedback_text (fire cb ((clearTimeout j s)\<lparr>clock := c\<rparr>)) = welcome_text"
    using rest(3) na by (cases cb) (auto simp: page_defs split: option.splits)
  ultimately show ?thesis by (simp add: done_join_def)
qed

lemma joining_fire:
  assumes j: "joining i D p s" and e: "earliest (timers s) = Some (j, due, cb)" and d: "due \<le> D"
  shows "joining i D p (fire cb ((clearTimeout j s)\<lparr>clock := max (clock s) due\<rparr>))"
proof -
  from j have i: "ids_ok s" and c: "clock s \<le> D" by (simp_all add: joining_def)
  have i': "ids_ok (fire cb ((clearTimeout j s)\<lparr>clock := max (clock s) due\<rparr>))"
    using i by (rule ids_ok_fire)
  have c': "clock (fire cb ((clearTimeout j s)\<lparr>clock := max (clock s) due\<rparr>)) \<le> D"
    using c d by (simp add: clearTimeout_def)
  have "pending_join i D p (fire cb ((clearTimeout j s)\<lparr>clock := max (clock s) due\<rparr>)) \<or>
    done_join D p (fire cb ((clearTimeout j s)\<lparr>clock := max (clock s) due\<rparr>))"
  proof (cases "done_join D p s")
    case True
    then show ?thesis using done_join_fire [OF i True e d] by simp
  next
    case False
    with j have pj: "pending_join i D p s" by (simp add: joining_def)
    show ?thesis
    proof (cases "j = i")
      case True
      with joining_fire_own [OF i c pj] e show ?thesis by simp
    next
      case False
      with joining_fire_other [OF i pj e] show ?thesis by simp
    qed
  qed
  with i' c' show ?thesis by (simp add: joining_def)
qed

lemma joining_advance:
  assumes "joining i D p s"
  shows "done_join D p (advance D s) \<and> ids_ok (advance D s) \<and> clock (advance D s) = D"
proof (rule advance_rule [where P = "joining i D p"])
  show "joining i D p s" by fact
next
  fix s j due cb
  assume "joining i D p s" "earliest (timers s) = Some (j, due, cb)" "due \<le> D"
  then show "joining i D p (fire cb ((clearTimeout j s)\<lparr>clock := max (clock s) due\<rparr>))"
    by (rule joining_fire)
next
  fix s
  assume j: "joining i D p s" and l: "\<forall>tm \<in> set (timers s). D < fst (snd tm)"
  have "\<not> pending_join i D p s"
  proof
    assume "pending_join i D p s"
    then have "(i, D, Accept p) \<in> set (timers s)" by (simp add: pending_join_def)
    with l show False by fastforce
  qed
  with j have "done_join D p s" "ids_ok s" "clock s \<le> D" by (simp_all add: joining_def)
  then show "done_join D p (s\<lparr>clock := max (clock s) D\<rparr>) \<and> ids_ok (s\<lparr>clock := max (clock s) D\<rparr>) \<and>
      clock (s\<lparr>clock := max (clock s) D\<rparr>) = D"
    by (simp add: done_join_def ids_ok_def)
qed

lemma submit_joining:
  assumes i: "ids_ok s" and a: "accepts_ok s" and v: "validateForm (payload_of fd) = []"
  shows "joining (next_id s) (clock s + 900) (payload_of fd) (submit fd s)"
proof -
  have i': "ids_ok (submit fd s)" using ids_ok_step [OF i, of "Submit fd"]
    by (cases "listening s") (auto simp: ids_ok_def page_defs less_Suc_eq intro!: ids_sorted_snoc)
  have "pending_join (next_id s) (clock s + 900) (payload_of fd) (submit fd s)"
    using i a v
    by (auto simp: pending_join_def ids_ok_def accepts_ok_def page_defs dest: ids_sorted_less)
  with i' v show ?thesis by (simp add: joining_def page_defs)
qed


lemma closing_fire:
  assumes c: "closing k T s" and e: "earliest (timers s) = Some (j, due, cb)"
  shows "closing k T (fire cb ((clearTimeout j s)\<lparr>clock := c\<rparr>))"
proof -
  from c have i: "ids_ok s" and jn: "joined s" by (simp_all add: closing_def)
  have m: "(j, due, cb) \<in> set (timers s)" using earliest_mem [OF e] .
  from i have srt: "ids_sorted (next_id s) (timers s)" by (simp add: ids_ok_def)
  have i': "ids_ok (fire cb ((clearTimeout j s)\<lparr>clock := c\<rparr>))" using i by (rule ids_ok_fire)
  have jn': "joined (fire cb ((clearTimeout j s)\<lparr>clock := c\<rparr>))"
    using jn by (cases cb) (auto simp: joined_def page_defs split: option.splits)
  have rest: "((k, T, CloseAfterJoin) \<in> set (timers (fire cb ((clearTimeout j s)\<lparr>clock := c\<rparr>))) \<and>
       timed (fire cb ((clearTimeout j s)\<lparr>clock := c\<rparr>)) \<noteq> k \<and>
       timer_t (scroll_thr (fire cb ((clearTimeout j s)\<lparr>clock := c\<rparr>))) \<noteq> Some k) \<or>
      (\<not> modal_open (fire cb ((clearTimeout j s)\<lparr>clock := c\<rparr>)) \<and>
       body_overflow (fire cb ((clearTimeout j s)\<lparr>clock := c\<rparr>)) = [])"
  proof (cases "\<not> modal_open s \<and> body_overflow s = []")
    case True
    with jn show ?thesis
      by (cases cb) (auto simp: joined_def page_defs split: option.splits)
  next
    case False
    with c have p: "(k, T, CloseAfterJoin) \<in> set (timers s)" "timed s \<noteq> k"
      "timer_t (scroll_thr s) \<noteq> Some k"
      by (auto simp: closing_def)
    have lt: "k < next_id s" using srt p(1) by (auto dest: ids_sorted_less)
    show ?thesis
    proof (cases "j = k")
      case True
      have "(j, due, cb) = (k, T, CloseAfterJoin)"
        using True by (intro ids_sorted_unique [OF srt m p(1)]) simp
      then show ?thesis by (simp add: page_defs)
    next
      case False
      with p lt jn show ?thesis
        by (cases cb) (auto simp: joined_def page_defs split: option.splits)
    qed
  qed
  with i' jn' show ?thesis by (simp add: closing_def)
qed

lemma closing_advance:
  assumes "closing k T s"
  shows "\<not> modal_open (advance T s) \<and> body_overflow (advance T s) = []"
proof (rule advance_rule [where P = "closing k T"])
  show "closing k T s" by fact
next
  fix s j due cb
  assume "closing k T s" "earliest (timers s) = Some (j, due, cb)"
  then show "closing k T (fire cb ((clearTimeout j s)\<lparr>clock := max (clock s) due\<rparr>))"
    by (rule closing_fire)
next
  fix s
  assume "closing k T s" "\<forall>tm \<in> set (timers s). T < fst (snd tm)"
  then show "\<not> modal_open (s\<lparr>clock := max (clock s) T\<rparr>) \<and> body_overflow (s\<lparr>clock := max (clock s) T\<rparr>) = []"
    by (fastforce simp: closing_def)
qed

lemma done_join_closing:
  "done_join D p s \<Longrightarrow> ids_ok s \<Longrightarrow> \<exists>k. closing k (D + 1400) s"
  by (auto simp: done_join_def closing_def joined_def)

lemma valid_submission:
  assumes i: "ids_ok s" and a: "accepts_ok s" and l: "listening s"
    and v: "validateForm (payload_of fd) = []"
  shows "feedback_text (step (Submit fd) s) = submitting_text"
    and "\<not> feedback_error (step (Submit fd) s)"
    and "localStorage (step (Submit fd) s) = localStorage s"
    and "timers (step (Submit fd) s) = timers s @ [(next_id s, clock s + 900, Accept (payload_of fd))]"
    and "localStorage (step (Wait 900) (step (Submit fd) s)) storageKey
           = Some (JoinRecordJSON (name (payload_of fd)) (clock s + 900))"
    and "feedback_text (step (Wait 900) (step (Submit fd) s)) = welcome_text"
    and "\<exists>k. (k, clock s + 900 + 1400, CloseAfterJoin) \<in> set (timers (step (Wait 900) (step (Submit fd) s)))"
    and "\<not> modal_open (step (Wait 1400) (step (Wait 900) (step (Submit fd) s)))"
    and "body_overflow (step (Wait 1400) (step (Wait 900) (step (Submit fd) s))) = []"
proof -
  let ?D = "clock s + 900"
  let ?s1 = "step (Submit fd) s"
  let ?s2 = "step (Wait 900) ?s1"
  have s1: "?s1 = submit fd s" using l by simp
  show "feedback_text ?s1 = submitting_text" "\<not> feedback_error ?s1" "localStorage ?s1 = localStorage s"
    "timers ?s1 = timers s @ [(next_id s, clock s + 900, Accept (payload_of fd))]"
    using v unfolding s1 by (simp_all add: page_defs)
  have c1: "clock ?s1 = clock s" using v unfolding s1 by (simp add: page_defs)
  have "joining (next_id s) ?D (payload_of fd) ?s1"
    unfolding s1 using i a v by (rule submit_joining)
  then have d: "done_join ?D (payload_of fd) (advance ?D ?s1) \<and> ids_ok (advance ?D ?s1) \<and>
      clock (advance ?D ?s1) = ?D"
    by (rule joining_advance)
  have s2: "?s2 = advance ?D ?s1" by (simp add: c1 del: step.simps(6)) 
  from d show "localStorage ?s2 storageKey = Some (JoinRecordJSON (name (payload_of fd)) ?D)"
    "feedback_text ?s2 = welcome_text"
    "\<exists>k. (k, ?D + 1400, CloseAfterJoin) \<in> set (timers ?s2)"
    unfolding s2 by (auto simp: done_join_def)
  from d obtain k where "closing k (?D + 1400) ?s2"
    unfolding s2 using done_join_closing by blast
  then have "\<not> modal_open (advance (?D + 1400) ?s2) \<and> body_overflow (advance (?D + 1400) ?s2) = []"
    by (rule closing_advance)
  moreover have "step (Wait 1400) ?s2 = advance (?D + 1400) ?s2"
    using d unfolding s2 by simp
  ultimately show "\<not> modal_open (step (Wait 1400) ?s2)" "body_overflow (step (Wait 1400) ?s2) = []"
    by simp_all
qed

section \<open>The signup modal: the claims\<close>

lemmas page_eval = run_def init_def fresh_page_def setupCTAModal_def joined_def advance.simps
  page_defs throttle_new_def storageKey_def

text \<open>
  C7. In every state that the page can reach with the modal set up, a submission that passes
  validation shows "Submitting..." and sets a timer of 900 ms; when the 900 ms have passed the
  join record with the trimmed name and the time of that moment is in storage under the fixed
  key, the confirmation is shown, and a timer of 1400 ms is pending; when these have passed
  too the modal is closed and the page scrolls again.
\<close>

theorem valid_submission_joins:
  "s = run evs (init (fresh_page t0 y h sto el)) \<Longrightarrow> listening s \<Longrightarrow>
   validateForm (payload_of fd) = [] \<Longrightarrow>
   feedback_text (step (Submit fd) s) = submitting_text \<and>
   \<not> feedback_error (step (Submit fd) s) \<and>
   localStorage (step (Submit fd) s) = localStorage s \<and>
   timers (step (Submit fd) s) = timers s @ [(next_id s, clock s + 900, Accept (payload_of fd))] \<and>
   localStorage (step (Wait 900) (step (Submit fd) s)) storageKey
     = Some (JoinRecordJSON (map_option trim (name fd)) (clock s + 900)) \<and>
   feedback_text (step (Wait 900) (step (Submit fd) s)) = welcome_text \<and>
   (\<exists>k. (k, clock s + 900 + 1400, CloseAfterJoin)
      \<in> set (timers (step (Wait 900) (step (Submit fd) s)))) \<and>
   \<not> modal_open (step (Wait 1400) (step (Wait 900) (step (Submit fd) s))) \<and>
   body_overflow (step (Wait 1400) (step (Wait 900) (step (Submit fd) s))) = []"
proof -
  assume s: "s = run evs (init (fresh_page t0 y h sto el))" and l: "listening s"
    and v: "validateForm (payload_of fd) = []"
  have i: "ids_ok s" unfolding s by (intro ids_ok_run ids_ok_init)
  have a: "accepts_ok s" unfolding s by (intro accepts_ok_run accepts_ok_init)
  have n: "name (payload_of fd) = map_option trim (name fd)" by (simp add: payload_of_def)
  show ?thesis
    using valid_submission [OF i a l v] unfolding n by blast
qed

theorem valid_submission_joins_witness:
  "listening (run [Wait 6000] (init (fresh_page 1000 0 800 Map.empty False))) \<and>
   validateForm (payload_of \<lparr>name = Some (js ''Asha ''), age = Some (js ''15''), email = Some []\<rparr>) = [] \<and>
   localStorage
     (step (Wait 900) (step (Submit \<lparr>name = Some (js ''Asha ''), age = Some (js ''15''), email = Some []\<rparr>)
       (run [Wait 6000] (init (fresh_page 1000 0 800 Map.empty False))))) storageKey
     = Some (JoinRecordJSON (Some (js ''Asha'')) 7900) \<and>
   \<not> modal_open
     (step (Wait 1400) (step (Wait 900) (step (Submit \<lparr>name = Some (js ''Asha ''), age = Some (js ''15''), email = Some []\<rparr>)
       (run [Wait 6000] (init (fresh_page 1000 0 800 Map.empty False))))))"
proof -
  let ?s = "run [Wait 6000] (init (fresh_page 1000 0 800 Map.empty False))"
  let ?fd = "\<lparr>name = Some (js ''Asha ''), age = Some (js ''15''), email = Some []\<rparr>"
  have l: "listening ?s" by (simp add: page_eval)
  have c: "clock ?s = 7000" by (simp add: page_eval)
  have v: "validateForm (payload_of ?fd) = []"
    by (simp add: validateForm_def name_fails_def age_fails_def email_fails_def payload_of_def eval_str)
  have n: "map_option trim (name ?fd) = Some (js ''Asha'')" by (simp add: eval_str)
  from valid_submission_joins [OF refl l v] l v show ?thesis
    unfolding c n by simp
qed

text \<open>
  C10. \<open>showAfter\<close> reads storage when it runs and does nothing when a join record is there,
  whether the timer or the scroll check called it. So once a record is in storage, and as long
  as nothing outside the page removes it, the modal is never opened again, whatever happens;
  this holds also for a record written after the modal was set up and before a trigger fired.
\<close>

theorem record_blocks_modal:
  "(joined s \<longrightarrow>
      showAfter s = s \<and> fire ShowTimer s = s \<and>
      opened (scroll_check s) = opened s \<and> modal_open (scroll_check s) = modal_open s) \<and>
   (joined s \<and> (\<forall>e \<in> set evs. keeps_record e) \<longrightarrow>
      joined (run evs s) \<and> opened (run evs s) = opened s \<and> (modal_open (run evs s) \<longrightarrow> modal_open s)) \<and>
   ((\<forall>e \<in> set evs. keeps_record e) \<longrightarrow>
      opened (run evs (step (Storage (Some (JoinRecordJSON n t)))
                (run evs0 (init (fresh_page t0 y h sto el)))))
        = opened (run evs0 (init (fresh_page t0 y h sto el))))"
proof -
  have 1: "showAfter s = s \<and> fire ShowTimer s = s \<and>
      opened (scroll_check s) = opened s \<and> modal_open (scroll_check s) = modal_open s"
    if "joined s"
    using that by (simp add: joined_def page_defs)
  have 2: "joined (run evs s) \<and> opened (run evs s) = opened s \<and> (modal_open (run evs s) \<longrightarrow> modal_open s)"
    if "joined s" "\<forall>e \<in> set evs. keeps_record e" for s
  proof -
    from that(1) have "closed_since (opened s) (modal_open s) s" by (simp add: closed_since_def)
    with that(2) have "closed_since (opened s) (modal_open s) (run evs s)" by (rule closed_run)
    then show ?thesis by (simp add: closed_since_def)
  qed
  have 3: "opened (run evs (step (Storage (Some (JoinRecordJSON n t))) s0)) = opened s0"
    if "\<forall>e \<in> set evs. keeps_record e" for s0
    using 2 [of "step (Storage (Some (JoinRecordJSON n t))) s0"] that by (simp add: joined_def)
  show ?thesis using 1 2 3 by blast
qed

theorem record_blocks_modal_witness:
  "\<not> joined (fresh_page 1000 0 800 Map.empty False) \<and>
   keeps_record (Wait 6000) \<and> keeps_record (Scroll 900) \<and> keeps_record (Wait 1000) \<and>
   opened (run [Wait 6000, Scroll 900, Wait 1000]
     (step (Storage (Some (JoinRecordJSON (Some (js ''Asha'')) 1500)))
       (run [Wait 500] (init (fresh_page 1000 0 800 Map.empty False))))) = 0"
proof -
  have k: "\<forall>e \<in> set [Wait 6000, Scroll 900, Wait 1000]. keeps_record e"
    by (simp add: keeps_record_def)
  have n: "\<not> joined (fresh_page 1000 0 800 Map.empty False)"
    by (simp add: joined_def fresh_page_def)
  have o: "opened (run [Wait 500] (init (fresh_page 1000 0 800 Map.empty False))) = 0"
    by (simp add: page_eval)
  from record_blocks_modal [of _ "[Wait 6000, Scroll 900, Wait 1000]" "Some (js ''Asha'')" 1500
      "[Wait 500]" 1000 0 800 Map.empty False] k
  have "opened (run [Wait 6000, Scroll 900, Wait 1000]
     (step (Storage (Some (JoinRecordJSON (Some (js ''Asha'')) 1500)))
       (run [Wait 500] (init (fresh_page 1000 0 800 Map.empty False)))))
     = opened (run [Wait 500] (init (fresh_page 1000 0 800 Map.empty False)))"
    by blast
  with k n o show ?thesis by simp
qed

text \<open>
  C1, as amended. With a join record in storage at startup, or with an element \<open>#cta-modal\<close>
  already in the document, \<open>setupCTAModal\<close> changes nothing and the modal is never opened.
  With no record and no such element it builds the modal, and then: the modal is opened at
  most once, whatever happens; in a run that puts no join record into storage it has been
  opened exactly once when 6000 ms have passed; in a run that leaves the scroll position at
  or below 45 percent of the window height after each event it is not opened before 6000 ms;
  and after a scroll event at a position above 45 percent it has been opened when 250 ms
  (the throttle) have passed, provided that until then the position is above 45 percent
  after each event and no join record is put into storage.
\<close>

theorem signup_modal_shown_once:
  "(joined (fresh_page t0 y h sto el) \<or> el \<longrightarrow>
      setupCTAModal (fresh_page t0 y h sto el) = fresh_page t0 y h sto el \<and>
      opened (run evs (init (fresh_page t0 y h sto el))) = 0 \<and>
      \<not> modal_open (run evs (init (fresh_page t0 y h sto el)))) \<and>
   (\<not> joined (fresh_page t0 y h sto False) \<longrightarrow>
      has_cta_modal (setupCTAModal (fresh_page t0 y h sto False)) \<and>
      listening (setupCTAModal (fresh_page t0 y h sto False)) \<and>
      opened (run evs (init (fresh_page t0 y h sto False))) \<le> 1 \<and>
      ((\<forall>e \<in> set evs. writes_no_record e) \<and> t0 + 6000 \<le> clock (run evs (init (fresh_page t0 y h sto False))) \<longrightarrow>
         opened (run evs (init (fresh_page t0 y h sto False))) = 1) \<and>
      (100 * y \<le> 45 * h \<and> along at_or_below evs (init (fresh_page t0 y h sto False)) \<and>
       clock (run evs (init (fresh_page t0 y h sto False))) < t0 + 6000 \<longrightarrow>
         opened (run evs (init (fresh_page t0 y h sto False))) = 0) \<and>
      (0 \<le> t0 \<and> (\<forall>e \<in> set evs. writes_no_record e) \<and>
       100 * y' > 45 * innerHeight (run evs (init (fresh_page t0 y h sto False))) \<and>
       (\<forall>e \<in> set evs'. writes_no_record e) \<and>
       along past evs' (step (Scroll y') (run evs (init (fresh_page t0 y h sto False)))) \<and>
       clock (run evs (init (fresh_page t0 y h sto False))) + 250
         \<le> clock (run evs' (step (Scroll y') (run evs (init (fresh_page t0 y h sto False))))) \<longrightarrow>
         opened (run evs' (step (Scroll y') (run evs (init (fresh_page t0 y h sto False))))) = 1))"
proof -
  have 1: "setupCTAModal (fresh_page t0 y h sto el) = fresh_page t0 y h sto el \<and>
      opened (run evs (init (fresh_page t0 y h sto el))) = 0 \<and>
      \<not> modal_open (run evs (init (fresh_page t0 y h sto el)))"
    if a: "joined (fresh_page t0 y h sto el) \<or> el"
  proof -
    have "inert el (run evs (init (fresh_page t0 y h sto el)))"
      using a by (intro inert_run inert_init)
    moreover have "setupCTAModal (fresh_page t0 y h sto el) = fresh_page t0 y h sto el"
      using a by (auto simp: setupCTAModal_def) (simp add: fresh_page_def)
    ultimately show ?thesis by (simp add: inert_def)
  qed
  have 2: "has_cta_modal (setupCTAModal (fresh_page t0 y h sto False)) \<and>
      listening (setupCTAModal (fresh_page t0 y h sto False))"
    if "\<not> joined (fresh_page t0 y h sto False)"
    using that by (simp add: setupCTAModal_def setTimeout_def) (simp add: fresh_page_def)
  have "once (run evs (init (fresh_page t0 y h sto False)))"
    by (intro once_run once_init)
  then have 3: "opened (run evs (init (fresh_page t0 y h sto False))) \<le> 1"
    by (simp add: once_def split: if_splits)
  show ?thesis
    using 1 2 3 shown_by_6000 [of t0 y h sto evs] not_before_6000 [of y h evs t0 sto False]
      shown_after_scroll [of t0 y h sto evs y' evs']
    by blast
qed

theorem signup_modal_shown_once_witness:
  "joined (fresh_page 1000 0 800 [storageKey \<mapsto> JoinRecordJSON (Some (js ''Asha'')) 5] False) \<and>
   opened (run [Wait 6000, Scroll 900, Wait 1000]
     (init (fresh_page 1000 0 800 [storageKey \<mapsto> JoinRecordJSON (Some (js ''Asha'')) 5] False))) = 0 \<and>
   \<not> joined (fresh_page 1000 0 800 Map.empty False) \<and>
   opened (run [Wait 6000] (init (fresh_page 1000 0 800 Map.empty False))) = 1 \<and>
   along at_or_below [Wait 100, Resize 400, Scroll 100, Wait 5899]
     (init (fresh_page 1000 0 800 Map.empty False)) \<and>
   opened (run [Wait 100, Resize 400, Scroll 100, Wait 5899]
     (init (fresh_page 1000 0 800 Map.empty False))) = 0 \<and>
   along past [Wait 100, Scroll 500, Wait 150]
     (step (Scroll 400) (run [Wait 250] (init (fresh_page 1000 0 800 Map.empty False)))) \<and>
   opened (run [Wait 100, Scroll 500, Wait 150]
     (step (Scroll 400) (run [Wait 250] (init (fresh_page 1000 0 800 Map.empty False))))) = 1"
proof -
  let ?P = "fresh_page 1000 0 800 Map.empty False"
  have j: "joined (fresh_page 1000 0 800 [storageKey \<mapsto> JoinRecordJSON (Some (js ''Asha'')) 5] False)"
    by (simp add: joined_def fresh_page_def)
  have n: "\<not> joined ?P"
    by (simp add: joined_def fresh_page_def)
  have q: "\<forall>e \<in> set [Wait 6000]. writes_no_record e" "\<forall>e \<in> set [Wait 250]. writes_no_record e"
    "\<forall>e \<in> set [Wait 100, Scroll 500, Wait 150]. writes_no_record e"
    by (simp_all add: writes_no_record_def)
  have c1: "clock (run [Wait 6000] (init ?P)) = 7000"
    by (simp add: page_eval)
  have c2: "clock (run [Wait 100, Resize 400, Scroll 100, Wait 5899] (init ?P)) = 6999"
    by (simp add: page_eval)
  have b2: "along at_or_below [Wait 100, Resize 400, Scroll 100, Wait 5899] (init ?P)"
    by (simp add: at_or_below_def page_eval)
  have h: "innerHeight (run [Wait 250] (init ?P)) = 800"
    by (simp add: page_eval)
  have c3: "clock (run [Wait 250] (init ?P)) = 1250"
    by (simp add: page_eval)
  have c4: "clock (run [Wait 100, Scroll 500, Wait 150] (step (Scroll 400) (run [Wait 250] (init ?P)))) = 1500"
    by (simp add: page_eval)
  have p4: "along past [Wait 100, Scroll 500, Wait 150] (step (Scroll 400) (run [Wait 250] (init ?P)))"
    by (simp add: past_def page_eval)
  have a: "opened (run [Wait 6000, Scroll 900, Wait 1000]
     (init (fresh_page 1000 0 800 [storageKey \<mapsto> JoinRecordJSON (Some (js ''Asha'')) 5] False))) = 0"
    using j signup_modal_shown_once [where ?t0.0 = 1000 and y = 0 and h = 800
        and sto = "[storageKey \<mapsto> JoinRecordJSON (Some (js ''Asha'')) 5]"
        and el = False and evs = "[Wait 6000, Scroll 900, Wait 1000]"]
    by blast
  have b: "opened (run [Wait 6000] (init ?P)) = 1"
    using n q(1) c1 signup_modal_shown_once [where ?t0.0 = 1000 and y = 0 and h = 800
        and sto = Map.empty and el = False and evs = "[Wait 6000]"]
    by simp
  have c: "opened (run [Wait 100, Resize 400, Scroll 100, Wait 5899] (init ?P)) = 0"
    using n b2 c2 signup_modal_shown_once [where ?t0.0 = 1000 and y = 0 and h = 800
        and sto = Map.empty and el = False and evs = "[Wait 100, Resize 400, Scroll 100, Wait 5899]"]
    by simp
  have d: "opened (run [Wait 100, Scroll 500, Wait 150] (step (Scroll 400) (run [Wait 250] (init ?P)))) = 1"
    using n q(2,3) h p4 c3 c4 signup_modal_shown_once [where ?t0.0 = 1000 and y = 0 and h = 800
        and sto = Map.empty and el = False and evs = "[Wait 250]" and y' = 400
        and evs' = "[Wait 100, Scroll 500, Wait 150]"]
    by simp
  from j n a b b2 c p4 d show ?thesis by blast
qed

text \<open>
  The proviso of the last part is needed: a scroll past 45 percent that is held back by the
  throttle and followed by a scroll back before the trailing check runs opens nothing, since
  the check reads the position when it runs.
\<close>

lemma brief_scroll_is_missed:
  "opened (run [Wait 250, Scroll 900, Wait 10, Scroll 0, Wait 240]
     (init (fresh_page 1000 0 800 Map.empty False))) = 0"
  by (simp add: page_eval)

text \<open>
  C1 as it was stated fails: with no join record at startup the modal is not shown at all
  when the document already has an element \<open>#cta-modal\<close>, nor when a record is written
  before the first trigger, although 6000 ms pass and the page is scrolled past 45 percent.
\<close>

theorem existing_modal_counterexample:
  "\<not> joined (fresh_page 1000 0 800 Map.empty True) \<and>
   opened (run [Wait 6000, Scroll 900, Wait 1000] (init (fresh_page 1000 0 800 Map.empty True))) = 0 \<and>
   \<not> joined (fresh_page 1000 0 800 Map.empty False) \<and>
   opened (run [Wait 500, Storage (Some (JoinRecordJSON (Some (js ''Asha'')) 1500)), Wait 6000, Scroll 900, Wait 1000]
     (init (fresh_page 1000 0 800 Map.empty False))) = 0"
  by (simp add: page_eval)

end
